theory Spec2Isabelle
  imports Complex_Main "HOL-Library.Log_Nat"
begin

section \<open>C-Mon: a system resource monitor (src/C-Mon.cpp)\<close>

text \<open>
  A shallow embedding of the single translation unit \<^verbatim>\<open>src/C-Mon.cpp\<close>: the class
  \<^verbatim>\<open>SystemMonitor\<close> (CPU, memory and disk readers, the monitoring loop), \<^verbatim>\<open>print_help\<close>
  and \<^verbatim>\<open>main\<close>. A definition carries the name of the C++ function it embeds and
  follows its statements in order; where a function is cut into parts (a loop and its
  body, a function after its first statement), the text before the definition says
  which lines it stands for.

  Conventions of the model.
  \<^item> A \<^verbatim>\<open>long\<close> is an integer between \<open>LONG_MIN\<close> and \<open>LONG_MAX\<close>. Sums and differences
    of \<^verbatim>\<open>long\<close> values wrap around modulo \<open>2 ^ 64\<close> (\<open>long_add\<close>, \<open>long_sub\<close>): signed
    overflow is undefined behaviour in C++, and two's complement wrap-around is what
    the compiled program does. Values read by formatted extraction are clamped to the
    range of \<^verbatim>\<open>long\<close>, as the library does. The \<^verbatim>\<open>int\<close> counter of the monitoring loop
    is never above its bound in a bounded run and is kept as an integer.
  \<^item> A \<^verbatim>\<open>double\<close> is a finite real (always one that binary64 represents), an infinity
    or NaN. Every conversion and every arithmetic operation rounds its exact result
    to the nearest binary64 value, ties to even (\<open>round_double\<close>), with gradual
    underflow and overflow to infinity; division by zero and the arithmetic of the
    special values follow IEEE 754. The two zeros are not distinguished; every zero
    divisor of this program comes from an integer conversion and is \<open>+0.0\<close>.
  \<^item> The operating system is an input: what the two pseudo-files, the filesystem
    query and the clock deliver at one tick is a record \<open>OS\<close>; a run receives one such
    record per tick. What the process emits (standard output, standard error, the
    files it writes, the sleeps it requests) is collected in a record \<open>World\<close>.
  \<^item> Text formatting of numbers is not modelled: a console line and a CSV row are
    kept as structured values holding the numbers printed.
\<close>

subsection \<open>Numbers\<close>

type_synonym long = int

definition LONG_MAX :: long where
  "LONG_MAX = 2 ^ 63 - 1"

definition LONG_MIN :: long where
  "LONG_MIN = - (2 ^ 63)"

definition INT_MAX :: int where
  "INT_MAX = 2 ^ 31 - 1"

definition INT_MIN :: int where
  "INT_MIN = - (2 ^ 31)"

text \<open>
  Two's complement wrap-around into the range of \<^verbatim>\<open>long\<close>, and the sum and difference
  of two \<^verbatim>\<open>long\<close> values.
\<close>

definition wrap_long :: "int \<Rightarrow> long" where
  "wrap_long x = (x + 2 ^ 63) mod 2 ^ 64 - 2 ^ 63"

definition long_add :: "long \<Rightarrow> long \<Rightarrow> long" where
  "long_add a b = wrap_long (a + b)"

definition long_sub :: "long \<Rightarrow> long \<Rightarrow> long" where
  "long_sub a b = wrap_long (a - b)"

datatype double = Fin real | PInf | NInf | NaN

text \<open>
  Rounding to binary64. \<open>binade x\<close> is the exponent \<open>e\<close> with
  \<open>2 ^ e \<le> \<bar>x\<bar> < 2 ^ (e + 1)\<close>, computed from the bit length of the integer part of
  \<open>\<bar>x\<bar>\<close> or of its inverse. \<open>round_even\<close> rounds to the nearest integer, a tie to the
  even one. \<open>round_double\<close> rounds to a multiple of the unit in the last place of 53
  bits, \<open>2 ^ (e - 52)\<close>, and of \<open>2 ^ - 1074\<close> below the normal range; a result of
  magnitude \<open>2 ^ 1024\<close> or more is an infinity.
\<close>

definition binade :: "real \<Rightarrow> int" where
  "binade x =
     (if 1 \<le> \<bar>x\<bar> then bitlen \<lfloor>\<bar>x\<bar>\<rfloor> - 1 else - bitlen (\<lceil>1 / \<bar>x\<bar>\<rceil> - 1))"

definition round_even :: "real \<Rightarrow> int" where
  "round_even y =
     (let f = \<lfloor>y\<rfloor>; d = y - of_int f
      in if d < 1 / 2 then f
         else if 1 / 2 < d then f + 1
         else if even f then f else f + 1)"

definition round_double :: "real \<Rightarrow> double" where
  "round_double x =
     (if x = 0 then Fin 0
      else
        (let u = 2 powi (max (binade x) (- 1022) - 52);
             r = of_int (round_even (x / u)) * u
         in if 2 powi 1024 \<le> \<bar>r\<bar> then (if 0 < x then PInf else NInf) else Fin r))"

text \<open>\<^verbatim>\<open>static_cast<double>(x)\<close> and the implicit conversion of an integer operand.\<close>

definition static_cast_double :: "int \<Rightarrow> double" where
  "static_cast_double x = round_double (of_int x)"

fun double_div :: "double \<Rightarrow> double \<Rightarrow> double" where
  "double_div (Fin a) (Fin b) =
     (if b \<noteq> 0 then round_double (a / b)
      else if a = 0 then NaN
      else if 0 < a then PInf else NInf)"
| "double_div (Fin a) PInf = Fin 0"
| "double_div (Fin a) NInf = Fin 0"
| "double_div PInf (Fin b) = (if 0 \<le> b then PInf else NInf)"
| "double_div NInf (Fin b) = (if 0 \<le> b then NInf else PInf)"
| "double_div _ _ = NaN"

fun double_sub :: "double \<Rightarrow> double \<Rightarrow> double" where
  "double_sub (Fin a) (Fin b) = round_double (a - b)"
| "double_sub (Fin a) PInf = NInf"
| "double_sub (Fin a) NInf = PInf"
| "double_sub PInf (Fin b) = PInf"
| "double_sub NInf (Fin b) = NInf"
| "double_sub PInf NInf = PInf"
| "double_sub NInf PInf = NInf"
| "double_sub _ _ = NaN"

fun double_mul :: "double \<Rightarrow> double \<Rightarrow> double" where
  "double_mul (Fin a) (Fin b) = round_double (a * b)"
| "double_mul (Fin a) PInf = (if a = 0 then NaN else if 0 < a then PInf else NInf)"
| "double_mul (Fin a) NInf = (if a = 0 then NaN else if 0 < a then NInf else PInf)"
| "double_mul PInf (Fin b) = (if b = 0 then NaN else if 0 < b then PInf else NInf)"
| "double_mul NInf (Fin b) = (if b = 0 then NaN else if 0 < b then NInf else PInf)"
| "double_mul PInf PInf = PInf"
| "double_mul PInf NInf = NInf"
| "double_mul NInf PInf = NInf"
| "double_mul NInf NInf = PInf"
| "double_mul _ _ = NaN"

text \<open>\<open>double_less a b\<close> is the C++ comparison \<^verbatim>\<open>a < b\<close>: false whenever an operand is NaN.\<close>

fun double_less :: "double \<Rightarrow> double \<Rightarrow> bool" where
  "double_less (Fin a) (Fin b) = (a < b)"
| "double_less (Fin a) PInf = True"
| "double_less NInf (Fin b) = True"
| "double_less NInf PInf = True"
| "double_less _ _ = False"

subsection \<open>The data of \<^verbatim>\<open>SystemMonitor\<close> (lines 26-60)\<close>

record CPUStats =
  user :: long
  nice :: long
  system :: long
  idle :: long
  iowait :: long
  irq :: long
  softirq :: long
  steal :: long

text \<open>
  \<^verbatim>\<open>CPUStats::total\<close> and \<^verbatim>\<open>CPUStats::active\<close> (lines 36-42): the additions from left
  to right, each one wrapping.
\<close>

definition CPUStats_total :: "CPUStats \<Rightarrow> long" where
  "CPUStats_total s =
     long_add (long_add (long_add (long_add (long_add (long_add (long_add
       (user s) (nice s)) (system s)) (idle s)) (iowait s)) (irq s)) (softirq s)) (steal s)"

definition CPUStats_active :: "CPUStats \<Rightarrow> long" where
  "CPUStats_active s =
     long_add (long_add (long_add (long_add (long_add
       (user s) (nice s)) (system s)) (irq s)) (softirq s)) (steal s)"

text \<open>
  \<^verbatim>\<open>MemoryStats\<close> (lines 45-55). The members \<^verbatim>\<open>total\<close>, \<^verbatim>\<open>free\<close> and \<^verbatim>\<open>available\<close> carry
  the suffix \<open>_kb\<close> here, apart from the members of the same names elsewhere.
\<close>

record MemoryStats =
  total_kb :: long
  free_kb :: long
  available_kb :: long
  buffers :: long
  cached :: long

text \<open>\<^verbatim>\<open>MemoryStats::used_percent\<close> (lines 52-54): no test of \<^verbatim>\<open>total\<close> before the division.\<close>

definition used_percent :: "MemoryStats \<Rightarrow> double" where
  "used_percent s =
     double_mul (Fin 100)
       (double_sub (Fin 1)
          (double_div (static_cast_double (available_kb s)) (static_cast_double (total_kb s))))"

record SystemMonitor =
  prev_cpu_stats :: CPUStats
  first_cpu_reading :: bool
  log_file :: string
  log_to_file :: bool

subsection \<open>The environment\<close>

text \<open>
  \<^verbatim>\<open>std::filesystem::space_info\<close> and the exception \<^verbatim>\<open>std::filesystem::filesystem_error\<close>
  with its \<^verbatim>\<open>what()\<close> text.
\<close>

record space_info =
  capacity :: nat
  free_bytes :: nat
  available_bytes :: nat

datatype filesystem_error = Filesystem_error string

text \<open>
  What the system delivers at one tick. A pseudo-file is \<open>None\<close> when it cannot be
  opened, and otherwise the list of its lines as \<^verbatim>\<open>std::getline\<close> returns them.
  \<open>space\<close> is \<^verbatim>\<open>std::filesystem::space\<close>, \<open>Inl\<close> when it throws. \<open>localtime\<close> is the
  local time already formatted as \<^verbatim>\<open>%Y-%m-%d %H:%M:%S\<close>. \<open>indeterminate\<close> is what
  the uninitialised local \<^verbatim>\<open>long value\<close> of \<^verbatim>\<open>get_memory_stats\<close> (line 118) holds when
  the first line is read.
\<close>

record OS =
  proc_stat :: "string list option"
  proc_meminfo :: "string list option"
  space :: "string \<Rightarrow> filesystem_error + space_info"
  localtime :: string
  indeterminate :: long

text \<open>
  One line of output. A console line and a CSV row hold the timestamp and the three
  numbers; the console prints them with one decimal, the CSV row in the default format.
\<close>

datatype line =
  Text string
| Console_line string double double double
| Csv_row string double double double

text \<open>
  What the process has emitted. \<open>files\<close> maps a path to the lines of the file there;
  \<open>openable\<close> tells whether \<^verbatim>\<open>std::ofstream\<close> can open the path for writing.
\<close>

record World =
  cout :: "line list"
  cerr :: "line list"
  files :: "string \<Rightarrow> line list option"
  openable :: "string \<Rightarrow> bool"
  sleeps :: "int list"

datatype openmode = Trunc | App

text \<open>
  Constructing a \<^verbatim>\<open>std::ofstream\<close> on a path with a mode, inserting lines and destroying
  it. The streams of this program never test their state: when the file cannot be
  opened, every insertion is a no-op and nothing is reported.
\<close>

definition ofstream_write :: "string \<Rightarrow> openmode \<Rightarrow> line list \<Rightarrow> World \<Rightarrow> World" where
  "ofstream_write path mode ls w =
     (if openable w path then
        (case mode of
           Trunc \<Rightarrow> w\<lparr>files := (files w)(path \<mapsto> ls)\<rparr>
         | App \<Rightarrow>
             w\<lparr>files := (files w)(path \<mapsto>
                  (case files w path of None \<Rightarrow> ls | Some old \<Rightarrow> old @ ls))\<rparr>)
      else w)"

subsection \<open>Formatted input from a line (\<^verbatim>\<open>std::istringstream\<close>)\<close>

text \<open>
  The stream is the text not yet read and its fail state. Once the stream has failed,
  every later extraction leaves its target unchanged. Reaching the end of the text
  while skipping white space fails the extraction, and the target keeps its value.
\<close>

record istringstream =
  buf :: string
  failed :: bool

definition isspace :: "char \<Rightarrow> bool" where
  "isspace c = (let n = (of_char c :: nat) in n = 32 \<or> (9 \<le> n \<and> n \<le> 13))"

definition isdigit :: "char \<Rightarrow> bool" where
  "isdigit c = (let n = (of_char c :: nat) in 48 \<le> n \<and> n \<le> 57)"

definition notspace :: "char \<Rightarrow> bool" where
  "notspace c = (if isspace c then False else True)"

text \<open>The value of a string of decimal digits, with the value read so far.\<close>

fun decimal :: "int \<Rightarrow> string \<Rightarrow> int" where
  "decimal acc [] = acc"
| "decimal acc (c # cs) = decimal (10 * acc + (int (of_char c) - 48)) cs"

text \<open>
  An optional sign and the longest run of digits after it: the sign, the digits and
  the text left. This is what \<^verbatim>\<open>num_get\<close> (base ten, classic locale) and \<^verbatim>\<open>strtol\<close>
  accept.
\<close>

definition scan_integer :: "string \<Rightarrow> bool \<times> string \<times> string" where
  "scan_integer s =
     (let (neg, r) =
            (case s of
               [] \<Rightarrow> (False, s)
             | c # cs \<Rightarrow>
                 if c = CHR ''-'' then (True, cs)
                 else if c = CHR ''+'' then (False, cs)
                 else (False, s))
      in (neg, takeWhile isdigit r, dropWhile isdigit r))"

text \<open>\<^verbatim>\<open>iss >> str\<close> for a \<^verbatim>\<open>std::string\<close>; \<open>old\<close> is the value the target holds.\<close>

definition extract_string :: "string \<Rightarrow> istringstream \<Rightarrow> string \<times> istringstream" where
  "extract_string old iss =
     (if failed iss then (old, iss)
      else
        (let rest = dropWhile isspace (buf iss) in
         if rest = [] then (old, \<lparr>buf = [], failed = True\<rparr>)
         else (takeWhile notspace rest, \<lparr>buf = dropWhile notspace rest, failed = False\<rparr>)))"

text \<open>
  \<^verbatim>\<open>iss >> x\<close> for a \<^verbatim>\<open>long\<close>: with no digit the target becomes 0 and the stream fails;
  out of range the target becomes the nearest bound and the stream fails.
\<close>

definition extract_long :: "long \<Rightarrow> istringstream \<Rightarrow> long \<times> istringstream" where
  "extract_long old iss =
     (if failed iss then (old, iss)
      else
        (let rest = dropWhile isspace (buf iss) in
         if rest = [] then (old, \<lparr>buf = [], failed = True\<rparr>)
         else
           (let (neg, ds, r) = scan_integer rest;
                v = (if neg then - decimal 0 ds else decimal 0 ds)
            in if ds = [] then (0, \<lparr>buf = r, failed = True\<rparr>)
               else if LONG_MAX < v then (LONG_MAX, \<lparr>buf = r, failed = True\<rparr>)
               else if v < LONG_MIN then (LONG_MIN, \<lparr>buf = r, failed = True\<rparr>)
               else (v, \<lparr>buf = r, failed = False\<rparr>))))"

subsection \<open>The counter readers (lines 71-84 and 110-131)\<close>

text \<open>
  \<^verbatim>\<open>get_cpu_stats\<close>: the statistics start at zero; the first line of \<^verbatim>\<open>/proc/stat\<close>, when
  \<^verbatim>\<open>std::getline\<close> delivers one, is read as a label and eight numbers. A file that
  cannot be opened, or has no line, leaves the zeros: nothing is thrown.
\<close>

definition get_cpu_stats :: "OS \<Rightarrow> CPUStats" where
  "get_cpu_stats os =
     (let stats = \<lparr>user = 0, nice = 0, system = 0, idle = 0,
                    iowait = 0, irq = 0, softirq = 0, steal = 0\<rparr>
      in case proc_stat os of
           None \<Rightarrow> stats
         | Some [] \<Rightarrow> stats
         | Some (str # _) \<Rightarrow>
             (let iss = \<lparr>buf = str, failed = False\<rparr>;
                  (cpu_label, iss) = extract_string [] iss;
                  (v_user, iss) = extract_long (user stats) iss;
                  (v_nice, iss) = extract_long (nice stats) iss;
                  (v_system, iss) = extract_long (system stats) iss;
                  (v_idle, iss) = extract_long (idle stats) iss;
                  (v_iowait, iss) = extract_long (iowait stats) iss;
                  (v_irq, iss) = extract_long (irq stats) iss;
                  (v_softirq, iss) = extract_long (softirq stats) iss;
                  (v_steal, iss) = extract_long (steal stats) iss
              in \<lparr>user = v_user, nice = v_nice, system = v_system, idle = v_idle,
                   iowait = v_iowait, irq = v_irq, softirq = v_softirq, steal = v_steal\<rparr>))"

text \<open>
  The body of the \<^verbatim>\<open>while\<close> loop of \<^verbatim>\<open>get_memory_stats\<close> (lines 116-127) on one line.
  The local \<^verbatim>\<open>value\<close> is not initialised: \<open>junk\<close> is what it holds before the
  extraction, and the second component of the result is what it holds after. The
  compiled loop keeps the local in one place, so each pass finds there what the pass
  before has left.
\<close>

definition meminfo_line :: "long \<Rightarrow> string \<Rightarrow> MemoryStats \<Rightarrow> MemoryStats \<times> long" where
  "meminfo_line junk str stats =
     (let iss = \<lparr>buf = str, failed = False\<rparr>;
          (key, iss) = extract_string [] iss;
          (val, iss) = extract_long junk iss;
          (unit, iss) = extract_string [] iss
      in (if key = ''MemTotal:'' then stats\<lparr>total_kb := val\<rparr>
          else if key = ''MemFree:'' then stats\<lparr>free_kb := val\<rparr>
          else if key = ''MemAvailable:'' then stats\<lparr>available_kb := val\<rparr>
          else if key = ''Buffers:'' then stats\<lparr>buffers := val\<rparr>
          else if key = ''Cached:'' then stats\<lparr>cached := val\<rparr>
          else stats,
          val))"

fun meminfo_lines :: "long \<Rightarrow> string list \<Rightarrow> MemoryStats \<Rightarrow> MemoryStats" where
  "meminfo_lines junk [] stats = stats"
| "meminfo_lines junk (str # strs) stats =
     meminfo_lines (snd (meminfo_line junk str stats)) strs (fst (meminfo_line junk str stats))"

definition get_memory_stats :: "OS \<Rightarrow> MemoryStats" where
  "get_memory_stats os =
     (let stats = \<lparr>total_kb = 0, free_kb = 0, available_kb = 0, buffers = 0, cached = 0\<rparr>
      in case proc_meminfo os of
           None \<Rightarrow> stats
         | Some strs \<Rightarrow> meminfo_lines (indeterminate os) strs stats)"

subsection \<open>CPU usage (lines 86-108)\<close>

text \<open>
  \<^verbatim>\<open>get_cpu_usage\<close> after its first statement: lines 88-107 as a function of the reading
  \<^verbatim>\<open>current\<close> and of the monitor, returning the percentage and the monitor updated.
\<close>

definition cpu_usage_of :: "CPUStats \<Rightarrow> SystemMonitor \<Rightarrow> double \<times> SystemMonitor" where
  "cpu_usage_of current m =
     (let cpu_usage = Fin 0 in
      if first_cpu_reading m = False then
        (let prev_total = CPUStats_total (prev_cpu_stats m);
             current_total = CPUStats_total current;
             total_delta = long_sub current_total prev_total;
             prev_active = CPUStats_active (prev_cpu_stats m);
             current_active = CPUStats_active current;
             active_delta = long_sub current_active prev_active;
             cpu_usage =
               (if 0 < total_delta
                then double_mul (Fin 100)
                       (double_div (static_cast_double active_delta)
                                   (static_cast_double total_delta))
                else cpu_usage)
         in (cpu_usage, m\<lparr>prev_cpu_stats := current\<rparr>))
      else (cpu_usage, m\<lparr>first_cpu_reading := False, prev_cpu_stats := current\<rparr>))"

definition get_cpu_usage :: "OS \<Rightarrow> SystemMonitor \<Rightarrow> double \<times> SystemMonitor" where
  "get_cpu_usage os m = cpu_usage_of (get_cpu_stats os) m"

subsection \<open>Disk usage and the timestamp (lines 133-156)\<close>

text \<open>
  \<^verbatim>\<open>get_disk_usage\<close>: a \<^verbatim>\<open>filesystem_error\<close> is caught, reported on standard error and
  turned into the final \<^verbatim>\<open>return 0.0\<close>; so is a capacity of zero.
\<close>

definition get_disk_usage :: "OS \<Rightarrow> string \<Rightarrow> World \<Rightarrow> double \<times> World" where
  "get_disk_usage os path w =
     (case space os path of
        Inr sp \<Rightarrow>
          (let total = static_cast_double (int (capacity sp));
               free = static_cast_double (int (free_bytes sp))
           in if double_less (Fin 0) total
              then (double_mul (Fin 100) (double_sub (Fin 1) (double_div free total)), w)
              else (Fin 0, w))
      | Inl (Filesystem_error what) \<Rightarrow>
          (Fin 0, w\<lparr>cerr := cerr w @ [Text (''Error getting disk space: '' @ what)]\<rparr>))"

definition get_timestamp :: "OS \<Rightarrow> string" where
  "get_timestamp os = localtime os"

subsection \<open>The constructor and the monitoring loop (lines 63-69 and 158-182)\<close>

text \<open>
  The constructor. The member \<^verbatim>\<open>prev_cpu_stats\<close> has no initialiser: \<open>garbage\<close> is what it
  holds. With a non-empty path the log is opened with \<^verbatim>\<open>std::ios::trunc\<close> and receives
  the header line.
\<close>

definition csv_header :: line where
  "csv_header = Text ''Timestamp,CPU Usage (%),Memory Usage (%),Disk Usage (%)''"

definition SystemMonitor_ctor :: "CPUStats \<Rightarrow> string \<Rightarrow> World \<Rightarrow> SystemMonitor \<times> World" where
  "SystemMonitor_ctor garbage path w =
     (let m = \<lparr>prev_cpu_stats = garbage, first_cpu_reading = True,
                log_file = path, log_to_file = False\<rparr>
      in if path \<noteq> []
         then (m\<lparr>log_to_file := True\<rparr>, ofstream_write path Trunc [csv_header] w)
         else (m, w))"

definition sleep_for :: "int \<Rightarrow> World \<Rightarrow> World" where
  "sleep_for seconds w = w\<lparr>sleeps := sleeps w @ [seconds]\<rparr>"

text \<open>
  The body of the \<^verbatim>\<open>while\<close> loop of \<^verbatim>\<open>monitor\<close> (lines 162-180): one tick, with the
  system as it is at that tick. \<open>iterations\<close> is the counter before \<^verbatim>\<open>iterations++\<close>.
\<close>

definition monitor_body ::
  "OS \<Rightarrow> int \<Rightarrow> int \<Rightarrow> int \<Rightarrow> SystemMonitor \<times> World \<Rightarrow> SystemMonitor \<times> World" where
  "monitor_body os interval_seconds count iterations s =
     (let (m, w) = s;
          (cpu_usage, m) = get_cpu_usage os m;
          mem_stats = get_memory_stats os;
          (disk_usage, w) = get_disk_usage os ''/'' w;
          timestamp = get_timestamp os;
          w = w\<lparr>cout := cout w @
                 [Console_line timestamp cpu_usage (used_percent mem_stats) disk_usage]\<rparr>;
          w = (if log_to_file m
               then ofstream_write (log_file m) App
                      [Csv_row timestamp cpu_usage (used_percent mem_stats) disk_usage] w
               else w);
          iterations = iterations + 1;
          w = (if count = - 1 \<or> iterations < count then sleep_for interval_seconds w else w)
      in (m, w))"

text \<open>
  The loop. \<open>oss k\<close> is the system at tick \<open>k\<close>. The result is \<open>None\<close> when the loop
  never ends.
\<close>

partial_function (option) monitor_loop ::
  "(nat \<Rightarrow> OS) \<Rightarrow> int \<Rightarrow> int \<Rightarrow> int \<Rightarrow> SystemMonitor \<times> World \<Rightarrow> (SystemMonitor \<times> World) option"
where
  "monitor_loop oss interval_seconds count iterations s =
     (if count = - 1 \<or> iterations < count
      then monitor_loop oss interval_seconds count (iterations + 1)
             (monitor_body (oss (nat iterations)) interval_seconds count iterations s)
      else Some s)"

definition monitor ::
  "(nat \<Rightarrow> OS) \<Rightarrow> int \<Rightarrow> int \<Rightarrow> SystemMonitor \<times> World \<Rightarrow> (SystemMonitor \<times> World) option" where
  "monitor oss interval_seconds count s = monitor_loop oss interval_seconds count 0 s"

text \<open>
  The state after the first \<open>k\<close> passes through the loop body, started with
  \<^verbatim>\<open>iterations = 0\<close>: the yardstick for ``the loop performs exactly \<open>k\<close> ticks''.
\<close>

fun ticks :: "(nat \<Rightarrow> OS) \<Rightarrow> int \<Rightarrow> int \<Rightarrow> nat \<Rightarrow> SystemMonitor \<times> World \<Rightarrow> SystemMonitor \<times> World" where
  "ticks oss interval_seconds count 0 s = s"
| "ticks oss interval_seconds count (Suc k) s =
     monitor_body (oss k) interval_seconds count (int k) (ticks oss interval_seconds count k s)"

text \<open>Whether a line of the log is a data row.\<close>

fun is_csv_row :: "line \<Rightarrow> bool" where
  "is_csv_row (Csv_row t c m d) = True"
| "is_csv_row _ = False"

subsection \<open>The command line (lines 185-230)\<close>

definition print_help :: "World \<Rightarrow> World" where
  "print_help w =
     w\<lparr>cout := cout w @
        [Text ''Usage: system_monitor [OPTIONS]'',
         Text ''Options:'',
         Text ''  -h, --help         Show this help message'',
         Text ''  -i, --interval N   Set monitoring interval in seconds (default: 1)'',
         Text ''  -c, --count N      Run for N iterations (default: infinite)'',
         Text ''  -l, --log FILE     Log results to CSV file'']\<rparr>"

text \<open>The exceptions of \<^verbatim>\<open>std::stoi\<close>, with their \<^verbatim>\<open>what()\<close> text.\<close>

datatype exception = Invalid_argument string | Out_of_range string

text \<open>
  \<^verbatim>\<open>std::stoi\<close>: white space, an optional sign and digits, by \<^verbatim>\<open>strtol\<close>; what follows
  the digits is ignored. No digit throws \<^verbatim>\<open>std::invalid_argument\<close>, a value outside
  \<^verbatim>\<open>int\<close> throws \<^verbatim>\<open>std::out_of_range\<close>.
\<close>

definition stoi :: "string \<Rightarrow> exception + int" where
  "stoi str =
     (let (neg, ds, r) = scan_integer (dropWhile isspace str);
          v = (if neg then - decimal 0 ds else decimal 0 ds)
      in if ds = [] then Inl (Invalid_argument ''stoi'')
         else if v < INT_MIN \<or> INT_MAX < v then Inl (Out_of_range ''stoi'')
         else Inr v)"

text \<open>
  The \<^verbatim>\<open>for\<close> loop of \<^verbatim>\<open>main\<close> (lines 200-219) over the arguments not yet read, with the
  current \<^verbatim>\<open>interval\<close>, \<^verbatim>\<open>count\<close> and \<^verbatim>\<open>log_file\<close>. It ends with the three values, with
  the request for help (the \<^verbatim>\<open>return 0\<close> of line 205) or with the exception of a
  \<^verbatim>\<open>std::stoi\<close>, which no handler encloses.
\<close>

datatype arguments = Help | Options int int string

definition is_help :: "string \<Rightarrow> bool" where
  "is_help arg = (arg = ''-h'' \<or> arg = ''--help'')"

definition is_interval :: "string \<Rightarrow> bool" where
  "is_interval arg = (arg = ''-i'' \<or> arg = ''--interval'')"

definition is_count :: "string \<Rightarrow> bool" where
  "is_count arg = (arg = ''-c'' \<or> arg = ''--count'')"

definition is_log :: "string \<Rightarrow> bool" where
  "is_log arg = (arg = ''-l'' \<or> arg = ''--log'')"

fun main_loop :: "string list \<Rightarrow> int \<Rightarrow> int \<Rightarrow> string \<Rightarrow> exception + arguments" where
  "main_loop [] interval count path = Inr (Options interval count path)"
| "main_loop (arg # rest) interval count path =
     (if is_help arg then Inr Help
      else if is_interval arg then
        (case rest of
           [] \<Rightarrow> main_loop [] interval count path
         | v # rest' \<Rightarrow>
             (case stoi v of
                Inl e \<Rightarrow> Inl e
              | Inr n \<Rightarrow> main_loop rest' n count path))
      else if is_count arg then
        (case rest of
           [] \<Rightarrow> main_loop [] interval count path
         | v # rest' \<Rightarrow>
             (case stoi v of
                Inl e \<Rightarrow> Inl e
              | Inr n \<Rightarrow> main_loop rest' interval n path))
      else if is_log arg then
        (case rest of
           [] \<Rightarrow> main_loop [] interval count path
         | v # rest' \<Rightarrow> main_loop rest' interval count v)
      else main_loop rest interval count path)"

text \<open>
  How the process ends: \<open>Exit c\<close> is \<^verbatim>\<open>return c\<close> from \<^verbatim>\<open>main\<close>; \<open>Terminate e\<close> is an
  exception that leaves \<^verbatim>\<open>main\<close>, on which \<^verbatim>\<open>std::terminate\<close> aborts the process: it
  is killed by \<^verbatim>\<open>SIGABRT\<close> and returns no exit code of its own.
\<close>

datatype status = Exit int | Terminate exception

text \<open>
  \<^verbatim>\<open>main\<close>. \<open>argv\<close> includes the program name. The result is \<open>None\<close> when the process
  never ends. Inside the \<^verbatim>\<open>try\<close> block (lines 221-223) nothing throws in this model:
  the streams are not in exception mode and \<^verbatim>\<open>get_disk_usage\<close> catches the
  \<^verbatim>\<open>filesystem_error\<close>; so the handler of lines 224-227, the only \<^verbatim>\<open>return 1\<close>, has no
  branch here.
\<close>

definition main :: "string list \<Rightarrow> CPUStats \<Rightarrow> (nat \<Rightarrow> OS) \<Rightarrow> World \<Rightarrow> (status \<times> World) option" where
  "main argv garbage oss w =
     (case main_loop (drop 1 argv) 1 (- 1) [] of
        Inl e \<Rightarrow> Some (Terminate e, w)
      | Inr Help \<Rightarrow> Some (Exit 0, print_help w)
      | Inr (Options interval count path) \<Rightarrow>
          (case monitor oss interval count (SystemMonitor_ctor garbage path w) of
             None \<Rightarrow> None
           | Some (m, w') \<Rightarrow> Some (Exit 0, w')))"

subsection \<open>Readings whose arithmetic does not wrap\<close>

text \<open>
  A reading whose eight counters lie between 0 and \<open>2 ^ 59\<close>: for two such readings
  no sum and no difference of \<^verbatim>\<open>get_cpu_usage\<close> leaves the range of \<^verbatim>\<open>long\<close>.
\<close>

definition counters_in_range :: "CPUStats \<Rightarrow> bool" where
  "counters_in_range s =
     (0 \<le> user s \<and> user s < 2 ^ 59 \<and> 0 \<le> nice s \<and> nice s < 2 ^ 59 \<and>
      0 \<le> system s \<and> system s < 2 ^ 59 \<and> 0 \<le> idle s \<and> idle s < 2 ^ 59 \<and>
      0 \<le> iowait s \<and> iowait s < 2 ^ 59 \<and> 0 \<le> irq s \<and> irq s < 2 ^ 59 \<and>
      0 \<le> softirq s \<and> softirq s < 2 ^ 59 \<and> 0 \<le> steal s \<and> steal s < 2 ^ 59)"

definition is_long :: "int \<Rightarrow> bool" where
  "is_long x = (LONG_MIN \<le> x \<and> x \<le> LONG_MAX)"

subsection \<open>Example inputs\<close>

text \<open>
  Two successive states of a healthy system, a system whose two pseudo-files cannot be
  opened, and one whose filesystem query throws; a world where every path can be
  opened for writing and one where none can.
\<close>

definition os_first :: OS where
  "os_first =
     \<lparr>proc_stat = Some [''cpu  100 0 0 900 0 0 0 0'', ''cpu0 100 0 0 900 0 0 0 0''],
      proc_meminfo = Some [''MemTotal:       16000 kB'', ''MemFree:         1000 kB'',
                           ''MemAvailable:    4000 kB''],
      space = (\<lambda>p. Inr \<lparr>capacity = 1000, free_bytes = 250, available_bytes = 200\<rparr>),
      localtime = ''2024-01-01 00:00:00'',
      indeterminate = 0\<rparr>"

definition os_second :: OS where
  "os_second =
     os_first\<lparr>proc_stat := Some [''cpu  200 0 0 1800 0 0 0 0''],
               localtime := ''2024-01-01 00:00:01''\<rparr>"

definition os_unreadable :: OS where
  "os_unreadable = os_first\<lparr>proc_stat := None, proc_meminfo := None\<rparr>"

definition os_no_disk :: OS where
  "os_no_disk = os_first\<lparr>space := (\<lambda>p. Inl (Filesystem_error ''filesystem error''))\<rparr>"

text \<open>Runs: the system at every tick.\<close>

definition oss_steady :: "nat \<Rightarrow> OS" where
  "oss_steady k = os_first"

definition oss_two :: "nat \<Rightarrow> OS" where
  "oss_two k = (if k = 0 then os_first else os_second)"


definition world_empty :: World where
  "world_empty =
     \<lparr>cout = [], cerr = [], files = (\<lambda>p. None), openable = (\<lambda>p. True), sleeps = []\<rparr>"

definition world_readonly :: World where
  "world_readonly = world_empty\<lparr>openable := (\<lambda>p. False)\<rparr>"

definition cpu_zero :: CPUStats where
  "cpu_zero = \<lparr>user = 0, nice = 0, system = 0, idle = 0,
                iowait = 0, irq = 0, softirq = 0, steal = 0\<rparr>"

definition cpu_first :: CPUStats where
  "cpu_first = \<lparr>user = 100, nice = 0, system = 0, idle = 900,
                 iowait = 0, irq = 0, softirq = 0, steal = 0\<rparr>"

definition cpu_second :: CPUStats where
  "cpu_second = \<lparr>user = 200, nice = 0, system = 0, idle = 1800,
                  iowait = 0, irq = 0, softirq = 0, steal = 0\<rparr>"

text \<open>
  A reading of 7 active ticks in 100; two readings whose totals wrap around, each
  below the reading it follows (\<open>cpu_huge\<close>, and \<open>cpu_pair\<close> before a reading of 5
  ticks), and the lines of \<^verbatim>\<open>/proc/stat\<close> they are read from.
\<close>

definition cpu_seven :: CPUStats where
  "cpu_seven = \<lparr>user = 7, nice = 0, system = 0, idle = 93,
                 iowait = 0, irq = 0, softirq = 0, steal = 0\<rparr>"

definition cpu_huge :: CPUStats where
  "cpu_huge = \<lparr>user = LONG_MAX, nice = LONG_MAX, system = LONG_MAX, idle = 0,
                iowait = 0, irq = 0, softirq = 0, steal = 0\<rparr>"

definition cpu_wrapped :: CPUStats where
  "cpu_wrapped = \<lparr>user = LONG_MAX, nice = 1, system = 0, idle = 0,
                   iowait = 0, irq = 0, softirq = 0, steal = 0\<rparr>"

definition cpu_pair :: CPUStats where
  "cpu_pair = \<lparr>user = LONG_MAX, nice = LONG_MAX, system = 0, idle = 0,
                iowait = 0, irq = 0, softirq = 0, steal = 0\<rparr>"

definition cpu_five :: CPUStats where
  "cpu_five = \<lparr>user = 5, nice = 0, system = 0, idle = 0,
                iowait = 0, irq = 0, softirq = 0, steal = 0\<rparr>"

definition os_huge :: OS where
  "os_huge =
     os_first\<lparr>proc_stat :=
       Some [''cpu  9223372036854775807 9223372036854775807 9223372036854775807 0 0 0 0 0'']\<rparr>"

definition os_wrapped :: OS where
  "os_wrapped = os_first\<lparr>proc_stat := Some [''cpu  9223372036854775807 1 0 0 0 0 0 0'']\<rparr>"

definition mem_zero :: MemoryStats where
  "mem_zero = \<lparr>total_kb = 0, free_kb = 0, available_kb = 0, buffers = 0, cached = 0\<rparr>"

section \<open>Properties\<close>

subsection \<open>Rounding and wrap-around\<close>

text \<open>
  Rounding to an integer is within one half and monotone; the binade of a number
  encloses it; rounding to binary64 is within the relative error \<open>2 ^ - 53\<close> in the
  normal range and exact on integers below \<open>2 ^ 53\<close>; the percentage that
  \<^verbatim>\<open>get_cpu_usage\<close> computes from two such integers is within \<open>2 ^ - 51\<close> of the exact
  quotient.
\<close>

lemma round_even_error: "\<bar>of_int (round_even y) - y\<bar> \<le> 1 / 2"
  unfolding round_even_def Let_def by (auto simp: abs_le_iff)

lemma round_even_of_int: "round_even (of_int n) = n"
  by (simp add: round_even_def)

lemma round_even_bounds: "\<lfloor>y\<rfloor> \<le> round_even y \<and> round_even y \<le> \<lfloor>y\<rfloor> + 1"
  by (simp add: round_even_def Let_def)

lemma round_even_mono:
  assumes "y \<le> z"
  shows "round_even y \<le> round_even z"
proof (cases "\<lfloor>y\<rfloor> < \<lfloor>z\<rfloor>")
  case True
  have "round_even y \<le> \<lfloor>y\<rfloor> + 1" using round_even_bounds [of y] by simp
  also have "\<dots> \<le> \<lfloor>z\<rfloor>" using True by simp
  also have "\<dots> \<le> round_even z" using round_even_bounds [of z] by simp
  finally show ?thesis .
next
  case False
  moreover have "\<lfloor>y\<rfloor> \<le> \<lfloor>z\<rfloor>" using assms by (rule floor_mono)
  ultimately have eq: "\<lfloor>y\<rfloor> = \<lfloor>z\<rfloor>" by simp
  then have "y - of_int \<lfloor>y\<rfloor> \<le> z - of_int \<lfloor>z\<rfloor>" using assms by simp
  then show ?thesis
    unfolding round_even_def Let_def eq by auto
qed

lemma binade_bounds:
  assumes "x \<noteq> 0"
  shows "2 powi binade x \<le> \<bar>x\<bar> \<and> \<bar>x\<bar> < 2 powi (binade x + 1)"
proof (cases "1 \<le> \<bar>x\<bar>")
  case True
  let ?n = "\<lfloor>\<bar>x\<bar>\<rfloor>"
  have n1: "1 \<le> ?n" using True by simp
  then have pos: "0 < ?n" by simp
  have b1: "1 \<le> bitlen ?n" using pos by (simp add: bitlen_alt_def)
  from bitlen_bounds [OF pos]
  have lo: "2 ^ nat (bitlen ?n - 1) \<le> ?n" and hi: "?n < 2 ^ nat (bitlen ?n)" by simp_all
  have e: "binade x = bitlen ?n - 1" using True by (simp add: binade_def)
  have "(2::real) powi (bitlen ?n - 1) = 2 ^ nat (bitlen ?n - 1)"
    using b1 by (simp add: power_int_def)
  also have "\<dots> = of_int (2 ^ nat (bitlen ?n - 1))" by simp
  also have "\<dots> \<le> of_int ?n" using lo by (simp only: of_int_le_iff)
  also have "\<dots> \<le> \<bar>x\<bar>" by simp
  finally have A: "2 powi binade x \<le> \<bar>x\<bar>" by (simp add: e)
  have "\<bar>x\<bar> < of_int (?n + 1)" by linarith
  also have "\<dots> \<le> of_int (2 ^ nat (bitlen ?n))" using hi by (simp only: of_int_le_iff)
  also have "\<dots> = (2::real) powi (bitlen ?n)" using b1 by (simp add: power_int_def)
  finally have B: "\<bar>x\<bar> < 2 powi (binade x + 1)" by (simp add: e)
  from A B show ?thesis ..
next
  case False
  then have small: "\<bar>x\<bar> < 1" by simp
  have xpos: "0 < \<bar>x\<bar>" using assms by simp
  let ?y = "1 / \<bar>x\<bar>"
  have y1: "1 < ?y" using small xpos by simp
  let ?m = "\<lceil>?y\<rceil> - 1"
  have m1: "1 \<le> ?m" using y1 by linarith
  then have pos: "0 < ?m" by simp
  have k1: "1 \<le> bitlen ?m" using pos by (simp add: bitlen_alt_def)
  from bitlen_bounds [OF pos]
  have lo: "2 ^ nat (bitlen ?m - 1) \<le> ?m" and hi: "?m < 2 ^ nat (bitlen ?m)" by simp_all
  have e: "binade x = - bitlen ?m" using False by (simp add: binade_def)
  have "?y \<le> of_int (?m + 1)" by simp
  also have "\<dots> \<le> of_int (2 ^ nat (bitlen ?m))" using hi by (simp only: of_int_le_iff)
  also have "\<dots> = 2 ^ nat (bitlen ?m)" by simp
  finally have "1 / \<bar>x\<bar> \<le> 2 ^ nat (bitlen ?m)" .
  then have "1 / 2 ^ nat (bitlen ?m) \<le> \<bar>x\<bar>"
    using xpos by (simp add: field_simps)
  moreover have "(2::real) powi (- bitlen ?m) = 1 / 2 ^ nat (bitlen ?m)"
    using k1 by (simp add: power_int_def field_simps)
  ultimately have A: "2 powi binade x \<le> \<bar>x\<bar>" by (simp add: e)
  have "(2::real) ^ nat (bitlen ?m - 1) = of_int (2 ^ nat (bitlen ?m - 1))" by simp
  also have "\<dots> \<le> of_int ?m" using lo by (simp only: of_int_le_iff)
  also have "\<dots> < ?y" by linarith
  finally have "2 ^ nat (bitlen ?m - 1) < 1 / \<bar>x\<bar>" .
  then have "\<bar>x\<bar> < 1 / 2 ^ nat (bitlen ?m - 1)"
    using xpos by (simp add: field_simps)
  moreover have "(2::real) powi (- bitlen ?m + 1) = 1 / 2 ^ nat (bitlen ?m - 1)"
  proof (cases "bitlen ?m = 1")
    case True
    then show ?thesis by simp
  next
    case False
    with k1 have "- bitlen ?m + 1 < 0" by simp
    then have "(2::real) powi (- bitlen ?m + 1) = inverse 2 ^ nat (- (- bitlen ?m + 1))"
      by (simp add: power_int_def)
    also have "nat (- (- bitlen ?m + 1)) = nat (bitlen ?m - 1)" by simp
    finally show ?thesis by (simp add: field_simps power_inverse)
  qed
  ultimately have B: "\<bar>x\<bar> < 2 powi (binade x + 1)" by (simp add: e)
  from A B show ?thesis ..
qed


lemma pow2_pos: "0 < (2::real) powi e"
  by simp

lemma pow2_mono: "a \<le> b \<Longrightarrow> (2::real) powi a \<le> 2 powi b"
  by (rule power_int_increasing) simp_all

lemma pow2_neg: "(2::real) powi (- int k) = 1 / 2 ^ k"
  by (simp add: power_int_minus inverse_eq_divide)

lemma round_double_normal:
  assumes lo: "2 powi (- 1022) \<le> \<bar>x\<bar>" and hi: "\<bar>x\<bar> < 2 powi 1023"
  shows "\<exists>r. round_double x = Fin r \<and> \<bar>r - x\<bar> \<le> \<bar>x\<bar> / 2 ^ 53"
proof -
  have x0: "x \<noteq> 0" using lo pow2_pos [of "- 1022"] by auto
  let ?e = "binade x"
  from binade_bounds [OF x0]
  have elo: "2 powi ?e \<le> \<bar>x\<bar>" and ehi: "\<bar>x\<bar> < 2 powi (?e + 1)" by simp_all
  have e_min: "- 1022 \<le> ?e"
  proof (rule ccontr)
    assume "\<not> - 1022 \<le> ?e"
    then have "?e + 1 \<le> - 1022" by simp
    then have "(2::real) powi (?e + 1) \<le> 2 powi (- 1022)" by (rule pow2_mono)
    with ehi lo show False by linarith
  qed
  have e_max: "?e \<le> 1022"
  proof (rule ccontr)
    assume "\<not> ?e \<le> 1022"
    then have "1023 \<le> ?e" by simp
    then have "(2::real) powi 1023 \<le> 2 powi ?e" by (rule pow2_mono)
    with elo hi show False by linarith
  qed
  let ?u = "(2::real) powi (?e - 52)"
  let ?r = "of_int (round_even (x / ?u)) * ?u"
  have u0: "0 < ?u" by simp
  have mx: "max ?e (- 1022) = ?e" using e_min by simp
  have half: "?u / 2 = 2 powi ?e / 2 ^ 53"
    by (simp add: power_int_diff)
  have "\<bar>?r - x\<bar> = \<bar>of_int (round_even (x / ?u)) - x / ?u\<bar> * ?u"
  proof -
    have "?r - x = (of_int (round_even (x / ?u)) - x / ?u) * ?u"
      using u0 by (simp add: field_simps)
    then show ?thesis using u0 by (simp add: abs_mult)
  qed
  also have "\<dots> \<le> (1 / 2) * ?u"
    using round_even_error [of "x / ?u"] u0 by (intro mult_right_mono) simp_all
  also have "\<dots> = 2 powi ?e / 2 ^ 53" using half by simp
  also have "\<dots> \<le> \<bar>x\<bar> / 2 ^ 53" using elo by (simp add: divide_right_mono)
  finally have err: "\<bar>?r - x\<bar> \<le> \<bar>x\<bar> / 2 ^ 53" .
  have "\<bar>?r\<bar> \<le> \<bar>x\<bar> + \<bar>?r - x\<bar>" by linarith
  also have "\<dots> \<le> \<bar>x\<bar> + \<bar>x\<bar> / 2 ^ 53" using err by simp
  also have "\<dots> \<le> \<bar>x\<bar> + \<bar>x\<bar>" by (simp add: field_simps)
  also have "\<dots> < 2 powi 1023 + 2 powi 1023" using hi by simp
  also have "\<dots> = 2 powi 1024" by simp
  finally have fin: "\<not> 2 powi 1024 \<le> \<bar>?r\<bar>" by simp
  have "round_double x = Fin ?r"
    using x0 fin by (simp add: round_double_def Let_def mx)
  with err show ?thesis by blast
qed

lemma round_double_of_int:
  assumes "\<bar>n\<bar> < 2 ^ 53"
  shows "round_double (of_int n) = Fin (of_int n)"
proof (cases "n = 0")
  case True
  then show ?thesis by (simp add: round_double_def)
next
  case False
  let ?x = "of_int n :: real"
  have x0: "?x \<noteq> 0" using False by simp
  have x1: "1 \<le> \<bar>?x\<bar>" using False by (simp flip: of_int_abs)
  have x53: "\<bar>?x\<bar> < 2 ^ 53" using assms by (simp flip: of_int_abs)
  let ?e = "binade ?x"
  from binade_bounds [OF x0]
  have elo: "2 powi ?e \<le> \<bar>?x\<bar>" and ehi: "\<bar>?x\<bar> < 2 powi (?e + 1)" by simp_all
  have e_min: "0 \<le> ?e"
  proof (rule ccontr)
    assume "\<not> 0 \<le> ?e"
    then have "?e + 1 \<le> 0" by simp
    then have "(2::real) powi (?e + 1) \<le> 2 powi 0" by (rule pow2_mono)
    with ehi x1 show False by simp
  qed
  have e_max: "?e \<le> 52"
  proof (rule ccontr)
    assume "\<not> ?e \<le> 52"
    then have "53 \<le> ?e" by simp
    then have "(2::real) powi 53 \<le> 2 powi ?e" by (rule pow2_mono)
    with elo x53 show False by simp
  qed
  let ?k = "nat (52 - ?e)"
  let ?u = "(2::real) powi (?e - 52)"
  have mx: "max ?e (- 1022) = ?e" using e_min by simp
  have u: "?u = 1 / 2 ^ ?k"
  proof -
    have "?e - 52 = - int ?k" using e_max by simp
    then show ?thesis by (simp only: pow2_neg)
  qed
  have q: "?x / ?u = of_int (n * 2 ^ ?k)" by (simp add: u)
  have r: "of_int (round_even (?x / ?u)) * ?u = ?x"
    by (simp only: q round_even_of_int) (simp add: u)
  have "\<bar>?x\<bar> < 2 powi 1024" using x53 by simp
  then have fin: "\<not> 2 powi 1024 \<le> \<bar>?x\<bar>" by simp
  show ?thesis
    using x0 fin by (simp add: round_double_def Let_def mx r del: of_int_eq_0_iff)
qed


text \<open>
  Rounding a number of a known binade, and an integer below \<open>2 ^ 53\<close> converted: the
  rules by which the doubles of the examples are computed.
\<close>

lemma binade_eq:
  assumes lo: "2 powi e \<le> \<bar>x\<bar>" and hi: "\<bar>x\<bar> < 2 powi (e + 1)"
  shows "binade x = e"
proof -
  have x0: "x \<noteq> 0"
  proof
    assume "x = 0"
    with lo have "(2::real) powi e \<le> 0" by simp
    with pow2_pos [of e] show False by linarith
  qed
  from binade_bounds [OF x0]
  have blo: "2 powi binade x \<le> \<bar>x\<bar>" and bhi: "\<bar>x\<bar> < 2 powi (binade x + 1)" by simp_all
  have "\<not> binade x < e"
  proof
    assume "binade x < e"
    then have "binade x + 1 \<le> e" by simp
    then have "(2::real) powi (binade x + 1) \<le> 2 powi e" by (rule pow2_mono)
    with bhi lo show False by linarith
  qed
  moreover have "\<not> e < binade x"
  proof
    assume "e < binade x"
    then have "e + 1 \<le> binade x" by simp
    then have "(2::real) powi (e + 1) \<le> 2 powi binade x" by (rule pow2_mono)
    with hi blo show False by linarith
  qed
  ultimately show ?thesis by simp
qed

lemma round_double_eval:
  assumes lo: "2 powi e \<le> \<bar>x\<bar>" and hi: "\<bar>x\<bar> < 2 powi (e + 1)"
    and e_min: "- 1022 \<le> e" and e_max: "e \<le> 1022"
  shows "round_double x = Fin (of_int (round_even (x * 2 powi (52 - e))) * 2 powi (e - 52))"
proof -
  have x0: "x \<noteq> 0"
  proof
    assume "x = 0"
    with lo have "(2::real) powi e \<le> 0" by simp
    with pow2_pos [of e] show False by linarith
  qed
  have b: "binade x = e" using lo hi by (rule binade_eq)
  have "(2::real) powi (- 1022) \<le> 2 powi e" using e_min by (rule pow2_mono)
  with lo have n1: "2 powi (- 1022) \<le> \<bar>x\<bar>" by linarith
  have "e + 1 \<le> 1023" using e_max by simp
  then have "(2::real) powi (e + 1) \<le> 2 powi 1023" by (rule pow2_mono)
  with hi have n2: "\<bar>x\<bar> < 2 powi 1023" by linarith
  from round_double_normal [OF n1 n2] obtain r where r: "round_double x = Fin r" by blast
  have mx: "max e (- 1022) = e" using e_min by simp
  have q: "x / 2 powi (e - 52) = x * 2 powi (52 - e)"
  proof -
    have "(2::real) powi (52 - e) = 2 powi (- (e - 52))" by simp
    also have "\<dots> = inverse (2 powi (e - 52))" by (rule power_int_minus)
    finally show ?thesis by (simp add: divide_inverse)
  qed
  show ?thesis
    using r x0 by (simp add: round_double_def Let_def b mx q split: if_splits)
qed

lemma static_cast_double_exact:
  "\<bar>n\<bar> < 2 ^ 53 \<Longrightarrow> static_cast_double n = Fin (of_int n)"
  unfolding static_cast_double_def by (rule round_double_of_int)

lemma half_bound: "0 \<le> (z::real) \<Longrightarrow> z / 2 ^ 53 \<le> z / 2"
  by simp

lemma two_roundings_bound:
  "0 \<le> (z::real) \<Longrightarrow> 100 * (2 * z) / 2 ^ 53 + 100 * (z / 2 ^ 53) \<le> 100 * z / 2 ^ 51"
  by simp

lemma near_half:
  "\<bar>q - z\<bar> \<le> \<bar>z\<bar> / 2 \<Longrightarrow> \<bar>z\<bar> / 2 \<le> \<bar>q\<bar> \<and> \<bar>q\<bar> \<le> 2 * \<bar>z\<bar>" for q z :: real
  by linarith

lemma triangle_100:
  "\<bar>p - 100 * z\<bar> \<le> \<bar>p - 100 * q\<bar> + 100 * \<bar>q - z\<bar>" for p q z :: real
proof -
  have "p - 100 * z = (p - 100 * q) + 100 * (q - z)" by simp
  then have "\<bar>p - 100 * z\<bar> \<le> \<bar>p - 100 * q\<bar> + \<bar>100 * (q - z)\<bar>"
    by (simp only: abs_triangle_ineq)
  then show ?thesis by (simp only: abs_mult abs_numeral)
qed

lemma percent_error:
  assumes t0: "0 < t" and t53: "t < 2 ^ 53" and a53: "\<bar>a\<bar> < 2 ^ 53"
  shows "\<exists>p. double_mul (Fin 100) (double_div (static_cast_double a) (static_cast_double t)) = Fin p \<and>
             \<bar>p - 100 * real_of_int a / real_of_int t\<bar> \<le> \<bar>100 * real_of_int a / real_of_int t\<bar> / 2 ^ 51"
proof -
  have ca: "static_cast_double a = Fin (of_int a)"
    unfolding static_cast_double_def using a53 by (rule round_double_of_int)
  have ct: "static_cast_double t = Fin (of_int t)"
    unfolding static_cast_double_def using t0 t53 by (intro round_double_of_int) simp
  let ?q0 = "real_of_int a / real_of_int t"
  have dv: "double_div (static_cast_double a) (static_cast_double t) = round_double ?q0"
    using t0 by (simp add: ca ct)
  show ?thesis
  proof (cases "a = 0")
    case True
    with dv show ?thesis by (simp add: round_double_def)
  next
    case False
    have tr: "0 < real_of_int t" "real_of_int t < 2 ^ 53" using t0 t53 by simp_all
    have ar: "1 \<le> \<bar>real_of_int a\<bar>" "\<bar>real_of_int a\<bar> < 2 ^ 53"
      using False a53 by (simp_all flip: of_int_abs)
    have q_abs: "\<bar>?q0\<bar> = \<bar>real_of_int a\<bar> / real_of_int t" using tr by simp
    have q_lo: "1 / 2 ^ 53 \<le> \<bar>?q0\<bar>"
    proof -
      have "1 / 2 ^ 53 \<le> 1 / real_of_int t" using tr by (simp add: field_simps)
      also have "\<dots> \<le> \<bar>real_of_int a\<bar> / real_of_int t"
        using ar tr by (simp add: divide_right_mono)
      finally show ?thesis by (simp only: q_abs)
    qed
    have q_hi: "\<bar>?q0\<bar> < 2 ^ 53"
    proof -
      have t1: "1 \<le> real_of_int t" using t0 by simp
      have "\<bar>real_of_int a\<bar> * 1 \<le> \<bar>real_of_int a\<bar> * real_of_int t"
        using t1 by (intro mult_left_mono) simp_all
      then have "\<bar>real_of_int a\<bar> / real_of_int t \<le> \<bar>real_of_int a\<bar>"
        using tr by (simp add: field_simps)
      with ar show ?thesis by (simp only: q_abs)
    qed
    have n1: "2 powi (- 1022) \<le> \<bar>?q0\<bar>"
    proof -
      have "(2::real) powi (- 1022) \<le> 2 powi (- int 53)" by (rule pow2_mono) simp
      also have "\<dots> = 1 / 2 ^ 53" by (rule pow2_neg)
      also have "\<dots> \<le> \<bar>?q0\<bar>" by (rule q_lo)
      finally show ?thesis .
    qed
    have n2: "\<bar>?q0\<bar> < 2 powi 1023"
    proof -
      have "(2::real) ^ 53 = 2 powi int 53" by (simp only: power_int_of_nat)
      also have "\<dots> \<le> 2 powi 1023" by (rule pow2_mono) simp
      finally have "(2::real) ^ 53 \<le> 2 powi 1023" .
      with q_hi show ?thesis by (rule less_le_trans)
    qed
    from round_double_normal [OF n1 n2]
    obtain q where rq: "round_double ?q0 = Fin q" and eq: "\<bar>q - ?q0\<bar> \<le> \<bar>?q0\<bar> / 2 ^ 53"
      by blast
    have small: "\<bar>?q0\<bar> / 2 ^ 53 \<le> \<bar>?q0\<bar> / 2" by (rule half_bound) simp
    have e2: "\<bar>q - ?q0\<bar> \<le> \<bar>?q0\<bar> / 2" using eq small by (rule order_trans)
    have q_lower: "\<bar>?q0\<bar> / 2 \<le> \<bar>q\<bar>" using near_half [OF e2] by (rule conjunct1)
    have q_upper2: "\<bar>q\<bar> \<le> 2 * \<bar>?q0\<bar>" using near_half [OF e2] by (rule conjunct2)
    have m1: "2 powi (- 1022) \<le> \<bar>100 * q\<bar>"
    proof -
      have "2 powi (- 1022) \<le> \<bar>?q0\<bar> / 2" 
      proof -
        have "(2::real) powi (- 1022) \<le> 2 powi (- int 54)" by (rule pow2_mono) simp
        also have "\<dots> = 1 / 2 ^ 54" by (rule pow2_neg)
        also have "\<dots> = (1 / 2 ^ 53) / 2" by simp
        also have "\<dots> \<le> \<bar>?q0\<bar> / 2" using q_lo by (rule divide_right_mono) simp
        finally show ?thesis .
      qed
      also have "\<dots> \<le> \<bar>q\<bar>" by (rule q_lower)
      also have "\<dots> \<le> 100 * \<bar>q\<bar>" by simp
      also have "\<dots> = \<bar>100 * q\<bar>" by (simp add: abs_mult)
      finally show ?thesis .
    qed
    have m2: "\<bar>100 * q\<bar> < 2 powi 1023"
    proof -
      have "\<bar>100 * q\<bar> = 100 * \<bar>q\<bar>" by (simp add: abs_mult)
      also have "\<dots> \<le> 200 * \<bar>?q0\<bar>" using q_upper2 by simp
      also have "\<dots> < 200 * 2 ^ 53" using q_hi by simp
      also have "\<dots> \<le> (2::real) ^ 61" by simp
      also have "\<dots> = 2 powi int 61" by (simp only: power_int_of_nat)
      also have "\<dots> \<le> 2 powi 1023" by (rule pow2_mono) simp
      finally show ?thesis .
    qed
    from round_double_normal [OF m1 m2]
    obtain p where rp: "round_double (100 * q) = Fin p"
        and ep: "\<bar>p - 100 * q\<bar> \<le> \<bar>100 * q\<bar> / 2 ^ 53"
      by blast
    have res: "double_mul (Fin 100) (double_div (static_cast_double a) (static_cast_double t)) = Fin p"
      by (simp add: dv rq rp)
    have "\<bar>p - 100 * ?q0\<bar> \<le> \<bar>p - 100 * q\<bar> + 100 * \<bar>q - ?q0\<bar>" by (rule triangle_100)
    also have "\<dots> \<le> 100 * \<bar>q\<bar> / 2 ^ 53 + 100 * (\<bar>?q0\<bar> / 2 ^ 53)"
      using ep eq by (simp add: abs_mult)
    also have "\<dots> \<le> 100 * (2 * \<bar>?q0\<bar>) / 2 ^ 53 + 100 * (\<bar>?q0\<bar> / 2 ^ 53)"
      using q_upper2 by (simp add: divide_right_mono)
    also have "\<dots> \<le> 100 * \<bar>?q0\<bar> / 2 ^ 51" by (rule two_roundings_bound) simp
    also have "\<dots> = \<bar>100 * ?q0\<bar> / 2 ^ 51" by (simp only: abs_mult abs_numeral)
    finally have "\<bar>p - 100 * ?q0\<bar> \<le> \<bar>100 * ?q0\<bar> / 2 ^ 51" .
    moreover have "100 * ?q0 = 100 * real_of_int a / real_of_int t" by simp
    ultimately have "\<bar>p - 100 * real_of_int a / real_of_int t\<bar> \<le>
        \<bar>100 * real_of_int a / real_of_int t\<bar> / 2 ^ 51"
      by (simp only:)
    with res show ?thesis by blast
  qed
qed

text \<open>
  Rounding keeps a number between 0 and an integer bound it starts between, and keeps
  the order of two numbers from 1 upwards.
\<close>

lemma pow2_nat: "(2::real) ^ k = 2 powi int k"
  by (simp only: power_int_of_nat)

lemma round_double_bounded:
  assumes x0: "0 < x" and xn: "x \<le> of_int n" and n53: "n < 2 ^ 53"
  shows "\<exists>r. round_double x = Fin r \<and> 0 \<le> r \<and> r \<le> of_int n"
proof -
  have xne: "x \<noteq> 0" using x0 by simp
  let ?e = "binade x"
  from binade_bounds [OF xne]
  have elo: "2 powi ?e \<le> x" using x0 by simp
  have nr: "real_of_int n < 2 ^ 53" using n53 by (simp flip: of_int_less_iff)
  have e52: "?e \<le> 52"
  proof (rule ccontr)
    assume "\<not> ?e \<le> 52"
    then have "int 53 \<le> ?e" by simp
    then have "(2::real) powi int 53 \<le> 2 powi ?e" by (rule pow2_mono)
    then have "(2::real) ^ 53 \<le> 2 powi ?e" by (simp only: pow2_nat)
    with elo xn nr show False by linarith
  qed
  let ?k = "max ?e (- 1022) - 52"
  let ?u = "(2::real) powi ?k"
  obtain j where kj: "?k = - int j"
  proof
    show "?k = - int (nat (- ?k))" using e52 by simp
  qed
  have u: "?u = 1 / 2 ^ j" by (simp only: kj pow2_neg)
  have u0: "0 < ?u" by simp
  let ?i = "round_even (x / ?u)"
  have "round_even 0 \<le> ?i"
    using x0 u0 by (intro round_even_mono) simp
  then have i0: "0 \<le> ?i" using round_even_of_int [of 0] by simp
  have "of_int n / ?u = of_int (n * 2 ^ j)" by (simp add: u)
  moreover have "x / ?u \<le> of_int n / ?u" using xn u0 by (simp add: divide_right_mono)
  ultimately have "?i \<le> round_even (of_int (n * 2 ^ j))"
    using round_even_mono [of "x / ?u" "of_int n / ?u"] by simp
  then have i_le: "?i \<le> n * 2 ^ j" by (simp only: round_even_of_int)
  let ?r = "of_int ?i * ?u"
  have r0: "0 \<le> ?r" using i0 u0 by simp
  have "real_of_int ?i \<le> of_int (n * 2 ^ j)" using i_le by (simp only: of_int_le_iff)
  then have "?r \<le> of_int (n * 2 ^ j) * ?u"
    using u0 by (intro mult_right_mono) simp_all
  also have "\<dots> = of_int n" by (simp add: u)
  finally have rn: "?r \<le> of_int n" .
  have "\<bar>?r\<bar> < 2 ^ 53" using r0 rn nr by linarith
  also have "(2::real) ^ 53 = 2 powi int 53" by (rule pow2_nat)
  also have "\<dots> \<le> 2 powi 1024" by (rule pow2_mono) simp
  finally have fin: "\<not> 2 powi 1024 \<le> \<bar>?r\<bar>" by simp
  have "round_double x = Fin ?r"
    using xne fin by (simp add: round_double_def Let_def)
  with r0 rn show ?thesis by blast
qed

lemma round_double_in_binade:
  assumes x0: "0 < x" and lo: "2 powi e \<le> x" and hi: "x < 2 powi (e + 1)"
    and e_min: "- 1022 \<le> e" and e_max: "e \<le> 1022"
  shows "\<exists>r. round_double x = Fin r \<and>
           r = of_int (round_even (x * 2 powi (52 - e))) * 2 powi (e - 52) \<and>
           2 powi e \<le> r \<and> r \<le> 2 powi (e + 1)"
proof -
  let ?s = "(2::real) powi (52 - e)"
  let ?u = "(2::real) powi (e - 52)"
  let ?i = "round_even (x * ?s)"
  have s0: "0 < ?s" and u0: "0 < ?u" by simp_all
  have su: "?s * ?u = 1"
    by (simp flip: power_int_add)
  have ev: "round_double x = Fin (of_int ?i * ?u)"
    using round_double_eval [of e x] lo hi x0 e_min e_max by simp
  have "(2::real) powi e * ?s = 2 powi int 52" by (simp flip: power_int_add)
  also have "\<dots> = of_int (2 ^ 52)" by (simp only: power_int_of_nat) simp
  finally have a: "(2::real) powi e * ?s = of_int (2 ^ 52)" .
  have "(2::real) powi (e + 1) * ?s = 2 powi int 53" by (simp flip: power_int_add)
  also have "\<dots> = of_int (2 ^ 53)" by (simp only: power_int_of_nat) simp
  finally have b: "(2::real) powi (e + 1) * ?s = of_int (2 ^ 53)" .
  have "of_int (2 ^ 52) \<le> x * ?s" using lo s0 a by (metis mult_right_mono less_imp_le)
  then have "round_even (of_int (2 ^ 52)) \<le> ?i" by (rule round_even_mono)
  then have i_lo: "2 ^ 52 \<le> ?i" by (simp only: round_even_of_int)
  have "x * ?s \<le> of_int (2 ^ 53)" using hi s0 b by (metis mult_right_mono less_imp_le)
  then have "?i \<le> round_even (of_int (2 ^ 53))" by (rule round_even_mono)
  then have i_hi: "?i \<le> 2 ^ 53" by (simp only: round_even_of_int)
  have "real_of_int (2 ^ 52) \<le> of_int ?i" using i_lo by (simp only: of_int_le_iff)
  then have le1: "of_int (2 ^ 52) * ?u \<le> of_int ?i * ?u"
    using u0 by (intro mult_right_mono) simp_all
  have eq1: "of_int (2 ^ 52) * ?u = (2::real) powi e"
  proof -
    have "of_int (2 ^ 52) * ?u = 2 powi e * (?s * ?u)" by (simp only: a [symmetric] mult.assoc)
    then show ?thesis by (simp only: su mult_1_right)
  qed
  have r_lo: "2 powi e \<le> of_int ?i * ?u" using le1 by (simp only: eq1)
  have "real_of_int ?i \<le> of_int (2 ^ 53)" using i_hi by (simp only: of_int_le_iff)
  then have le2: "of_int ?i * ?u \<le> of_int (2 ^ 53) * ?u"
    using u0 by (intro mult_right_mono) simp_all
  have eq2: "of_int (2 ^ 53) * ?u = (2::real) powi (e + 1)"
  proof -
    have "of_int (2 ^ 53) * ?u = 2 powi (e + 1) * (?s * ?u)"
      by (simp only: b [symmetric] mult.assoc)
    then show ?thesis by (simp only: su mult_1_right)
  qed
  have r_hi: "of_int ?i * ?u \<le> 2 powi (e + 1)" using le2 by (simp only: eq2)
  from ev r_lo r_hi show ?thesis by blast
qed


lemma round_double_range:
  assumes x0: "0 \<le> x" and xn: "x \<le> of_int n" and n53: "n < 2 ^ 53"
  shows "\<exists>r. round_double x = Fin r \<and> 0 \<le> r \<and> r \<le> of_int n"
proof (cases "x = 0")
  case True
  have "(0::real) \<le> of_int n" using x0 xn by linarith
  with True show ?thesis by (simp add: round_double_def)
next
  case False
  with x0 have "0 < x" by simp
  then show ?thesis using xn n53 by (rule round_double_bounded)
qed

lemma round_double_mono_pos:
  assumes x1: "1 \<le> x" and xy: "x \<le> y" and ymax: "y < 2 powi 1023"
  shows "\<exists>r s. round_double x = Fin r \<and> round_double y = Fin s \<and> 1 \<le> r \<and> r \<le> s"
proof -
  have x0: "0 < x" and y0: "0 < y" using x1 xy by linarith+
  let ?ex = "binade x" and ?ey = "binade y"
  from binade_bounds [of x] x0
  have xlo: "2 powi ?ex \<le> x" and xhi: "x < 2 powi (?ex + 1)" by simp_all
  from binade_bounds [of y] y0
  have ylo: "2 powi ?ey \<le> y" and yhi: "y < 2 powi (?ey + 1)" by simp_all
  have ex0: "0 \<le> ?ex"
  proof (rule ccontr)
    assume "\<not> 0 \<le> ?ex"
    then have "?ex + 1 \<le> 0" by simp
    then have "(2::real) powi (?ex + 1) \<le> 2 powi 0" by (rule pow2_mono)
    with xhi x1 show False by simp
  qed
  have ey_max: "?ey \<le> 1022"
  proof (rule ccontr)
    assume "\<not> ?ey \<le> 1022"
    then have "1023 \<le> ?ey" by simp
    then have "(2::real) powi 1023 \<le> 2 powi ?ey" by (rule pow2_mono)
    with ylo ymax show False by linarith
  qed
  have exy: "?ex \<le> ?ey"
  proof (rule ccontr)
    assume "\<not> ?ex \<le> ?ey"
    then have "?ey + 1 \<le> ?ex" by simp
    then have "(2::real) powi (?ey + 1) \<le> 2 powi ?ex" by (rule pow2_mono)
    with yhi xlo xy show False by linarith
  qed
  have ex_min: "- 1022 \<le> ?ex" and ex_max: "?ex \<le> 1022" and ey_min: "- 1022 \<le> ?ey"
    using ex0 exy ey_max by simp_all
  from round_double_in_binade [OF x0 xlo xhi ex_min ex_max]
  obtain r where r: "round_double x = Fin r"
      "r = of_int (round_even (x * 2 powi (52 - ?ex))) * 2 powi (?ex - 52)"
      "2 powi ?ex \<le> r" "r \<le> 2 powi (?ex + 1)"
    by blast
  from round_double_in_binade [OF y0 ylo yhi ey_min ey_max]
  obtain s where s: "round_double y = Fin s"
      "s = of_int (round_even (y * 2 powi (52 - ?ey))) * 2 powi (?ey - 52)"
      "2 powi ?ey \<le> s" "s \<le> 2 powi (?ey + 1)"
    by blast
  have "(2::real) powi 0 \<le> 2 powi ?ex" using ex0 by (rule pow2_mono)
  with r(3) have r1: "1 \<le> r" by simp
  have rs: "r \<le> s"
  proof (cases "?ex = ?ey")
    case True
    have "x * 2 powi (52 - ?ex) \<le> y * 2 powi (52 - ?ex)"
      using xy by (intro mult_right_mono) simp_all
    then have "round_even (x * 2 powi (52 - ?ex)) \<le> round_even (y * 2 powi (52 - ?ex))"
      by (rule round_even_mono)
    then have "real_of_int (round_even (x * 2 powi (52 - ?ex))) \<le>
        real_of_int (round_even (y * 2 powi (52 - ?ex)))"
      by (simp only: of_int_le_iff)
    then have "real_of_int (round_even (x * 2 powi (52 - ?ex))) * 2 powi (?ex - 52) \<le>
        real_of_int (round_even (y * 2 powi (52 - ?ex))) * 2 powi (?ex - 52)"
      by (intro mult_right_mono) simp_all
    then show ?thesis using r(2) s(2) True by simp
  next
    case False
    with exy have "?ex + 1 \<le> ?ey" by simp
    then have "(2::real) powi (?ex + 1) \<le> 2 powi ?ey" by (rule pow2_mono)
    with r(4) s(3) show ?thesis by linarith
  qed
  from r(1) s(1) r1 rs show ?thesis by blast
qed

lemma long_max_normal: "real_of_int LONG_MAX < 2 powi 1023"
proof -
  have "real_of_int LONG_MAX < 2 ^ 63" by (simp add: LONG_MAX_def)
  also have "(2::real) ^ 63 = 2 powi int 63" by (rule pow2_nat)
  also have "\<dots> \<le> 2 powi 1023" by (rule pow2_mono) simp
  finally show ?thesis .
qed

text \<open>Within the range of \<^verbatim>\<open>long\<close> nothing wraps.\<close>

lemma wrap_long_id: "- (2 ^ 63) \<le> x \<Longrightarrow> x < 2 ^ 63 \<Longrightarrow> wrap_long x = x"
  by (simp add: wrap_long_def)

lemma long_sub_self: "long_sub x x = 0"
  by (simp add: long_sub_def wrap_long_def)

lemma cpu_arithmetic_in_range:
  assumes "counters_in_range ra" and "counters_in_range rb"
  shows "CPUStats_total ra =
           user ra + nice ra + system ra + idle ra + iowait ra + irq ra + softirq ra + steal ra"
    and "CPUStats_active ra = user ra + nice ra + system ra + irq ra + softirq ra + steal ra"
    and "0 \<le> CPUStats_total ra" and "CPUStats_total ra < 2 ^ 62"
    and "0 \<le> CPUStats_active ra" and "CPUStats_active ra < 2 ^ 62"
    and "long_sub (CPUStats_total rb) (CPUStats_total ra) = CPUStats_total rb - CPUStats_total ra"
    and "long_sub (CPUStats_active rb) (CPUStats_active ra) =
           CPUStats_active rb - CPUStats_active ra"
proof -
  have sums: "CPUStats_total r =
           user r + nice r + system r + idle r + iowait r + irq r + softirq r + steal r \<and>
         CPUStats_active r = user r + nice r + system r + irq r + softirq r + steal r \<and>
         0 \<le> CPUStats_total r \<and> CPUStats_total r < 2 ^ 62 \<and>
         0 \<le> CPUStats_active r \<and> CPUStats_active r < 2 ^ 62"
    if "counters_in_range r" for r
    using that
    by (simp add: counters_in_range_def CPUStats_total_def CPUStats_active_def
          long_add_def wrap_long_id)
  from sums [OF assms(1)] sums [OF assms(2)]
  show "CPUStats_total ra =
           user ra + nice ra + system ra + idle ra + iowait ra + irq ra + softirq ra + steal ra"
    and "CPUStats_active ra = user ra + nice ra + system ra + irq ra + softirq ra + steal ra"
    and "0 \<le> CPUStats_total ra" and "CPUStats_total ra < 2 ^ 62"
    and "0 \<le> CPUStats_active ra" and "CPUStats_active ra < 2 ^ 62"
    and "long_sub (CPUStats_total rb) (CPUStats_total ra) = CPUStats_total rb - CPUStats_total ra"
    and "long_sub (CPUStats_active rb) (CPUStats_active ra) =
           CPUStats_active rb - CPUStats_active ra"
    by (simp_all add: long_sub_def wrap_long_id)
qed

subsection \<open>Auxiliary facts\<close>

text \<open>The two paths of \<open>cpu_usage_of\<close>: the cold start and the difference of two readings.\<close>

lemma cpu_usage_of_first:
  "first_cpu_reading m \<Longrightarrow>
   cpu_usage_of current m = (Fin 0, m\<lparr>first_cpu_reading := False, prev_cpu_stats := current\<rparr>)"
  by (simp add: cpu_usage_of_def)

lemma cpu_usage_of_next:
  "first_cpu_reading m = False \<Longrightarrow>
   cpu_usage_of current m =
     (if 0 < long_sub (CPUStats_total current) (CPUStats_total (prev_cpu_stats m))
      then double_mul (Fin 100)
             (double_div
                (static_cast_double
                   (long_sub (CPUStats_active current) (CPUStats_active (prev_cpu_stats m))))
                (static_cast_double
                   (long_sub (CPUStats_total current) (CPUStats_total (prev_cpu_stats m)))))
      else Fin 0,
      m\<lparr>prev_cpu_stats := current\<rparr>)"
  by (simp add: cpu_usage_of_def Let_def)

lemma ctor_first: "first_cpu_reading (fst (SystemMonitor_ctor garbage path w))"
  by (simp add: SystemMonitor_ctor_def Let_def)

lemma ctor_cout: "cout (snd (SystemMonitor_ctor garbage path w)) = cout w"
  by (simp add: SystemMonitor_ctor_def Let_def ofstream_write_def)

text \<open>The readers on the example systems, evaluated.\<close>

lemma get_cpu_stats_first: "get_cpu_stats os_first = cpu_first"
  by code_simp

lemma get_cpu_stats_second: "get_cpu_stats os_second = cpu_second"
  by code_simp

lemma get_cpu_stats_no_disk: "get_cpu_stats os_no_disk = cpu_first"
  by code_simp

text \<open>The doubles of the examples: a quarter, three quarters, 75.\<close>

lemma quarter_percent:
  "double_mul (Fin 100) (double_sub (Fin 1) (double_div (Fin n) (Fin (4 * n)))) = Fin 75"
  if "n \<noteq> 0"
proof -
  have q: "n / (4 * n) = 1 / 4" using that by simp
  have "round_double (1 / 4) = Fin (1 / 4)"
    using round_double_eval [where x = "1 / 4" and e = "- 2"] by (simp add: round_even_def)
  moreover have "round_double (1 - 1 / 4) = Fin (3 / 4)"
    using round_double_eval [where x = "1 - 1 / 4" and e = "- 1"] by (simp add: round_even_def)
  moreover have "round_double (100 * (3 / 4)) = Fin 75"
    using round_double_of_int [of 75] by simp
  ultimately show ?thesis using that by (simp add: q)
qed

lemma used_percent_first: "used_percent (get_memory_stats os_first) = Fin 75"
proof -
  have "get_memory_stats os_first =
      \<lparr>total_kb = 16000, free_kb = 1000, available_kb = 4000, buffers = 0, cached = 0\<rparr>"
    by code_simp
  then show ?thesis
    using quarter_percent [of 4000]
    by (simp add: used_percent_def static_cast_double_exact)
qed

lemma used_percent_no_disk: "used_percent (get_memory_stats os_no_disk) = Fin 75"
proof -
  have "get_memory_stats os_no_disk = get_memory_stats os_first"
    by (simp add: get_memory_stats_def os_no_disk_def Let_def split: option.split)
  then show ?thesis by (simp add: used_percent_first)
qed

lemma get_cpu_stats_huge: "get_cpu_stats os_huge = cpu_huge"
  by code_simp

lemma get_cpu_stats_wrapped: "get_cpu_stats os_wrapped = cpu_wrapped"
  by code_simp

lemma disk_usage_first: "fst (get_disk_usage os_first ''/'' w) = Fin 75"
  using quarter_percent [of 250]
  by (simp add: get_disk_usage_def os_first_def Let_def static_cast_double_exact)

lemma examples_in_range:
  "counters_in_range cpu_zero \<and> counters_in_range cpu_first \<and>
   counters_in_range cpu_second \<and> counters_in_range cpu_seven"
  by (simp add: counters_in_range_def cpu_zero_def cpu_first_def cpu_second_def cpu_seven_def)

lemma totals_examples:
  "CPUStats_total cpu_zero = 0 \<and> CPUStats_active cpu_zero = 0 \<and>
   CPUStats_total cpu_first = 1000 \<and> CPUStats_active cpu_first = 100 \<and>
   CPUStats_total cpu_second = 2000 \<and> CPUStats_active cpu_second = 200 \<and>
   CPUStats_total cpu_seven = 100 \<and> CPUStats_active cpu_seven = 7"
  using cpu_arithmetic_in_range [of cpu_zero cpu_zero]
    cpu_arithmetic_in_range [of cpu_first cpu_first]
    cpu_arithmetic_in_range [of cpu_second cpu_second]
    cpu_arithmetic_in_range [of cpu_seven cpu_seven] examples_in_range
  by (simp add: cpu_zero_def cpu_first_def cpu_second_def cpu_seven_def)

text \<open>The totals that wrap around.\<close>

lemma totals_wrapping:
  "CPUStats_total cpu_huge = 2 ^ 63 - 3 \<and> CPUStats_active cpu_huge = 2 ^ 63 - 3 \<and>
   CPUStats_total cpu_wrapped = - (2 ^ 63) \<and> CPUStats_active cpu_wrapped = - (2 ^ 63) \<and>
   CPUStats_total cpu_pair = - 2 \<and> CPUStats_active cpu_pair = - 2 \<and>
   CPUStats_total cpu_five = 5 \<and> CPUStats_active cpu_five = 5"
  by (simp add: CPUStats_total_def CPUStats_active_def long_add_def wrap_long_def
        cpu_huge_def cpu_wrapped_def cpu_pair_def cpu_five_def LONG_MAX_def)

text \<open>The percentages of the examples, as the double arithmetic gives them.\<close>

lemma percent_100_1000:
  "double_mul (Fin 100) (double_div (static_cast_double 100) (static_cast_double 1000)) = Fin 10"
proof -
  have "round_double (100 / 1000) = Fin (3602879701896397 / 36028797018963968)"
    using round_double_eval [where x = "100 / 1000" and e = "- 4"]
    by (simp add: round_even_def)
  moreover have "round_double (100 * (3602879701896397 / 36028797018963968)) = Fin 10"
    using round_double_eval [where x = "100 * (3602879701896397 / 36028797018963968)" and e = 3]
    by (simp add: round_even_def)
  ultimately show ?thesis by (simp add: static_cast_double_exact)
qed

lemma percent_7_100:
  "double_mul (Fin 100) (double_div (static_cast_double 7) (static_cast_double 100)) =
     Fin (7 + 1 / 2 ^ 50)"
proof -
  have "round_double (7 / 100) = Fin (1261007895663739 / 18014398509481984)"
    using round_double_eval [where x = "7 / 100" and e = "- 4"]
    by (simp add: round_even_def)
  moreover have "round_double (100 * (1261007895663739 / 18014398509481984)) =
      Fin (7 + 1 / 2 ^ 50)"
    using round_double_eval [where x = "100 * (1261007895663739 / 18014398509481984)" and e = 2]
    by (simp add: round_even_def)
  ultimately show ?thesis by (simp add: static_cast_double_exact)
qed

lemma percent_equal:
  "double_mul (Fin 100) (double_div (static_cast_double n) (static_cast_double n)) = Fin 100"
  if "0 < n" and "n < 2 ^ 53"
proof -
  have "round_double 1 = Fin 1" using round_double_of_int [of 1] by simp
  moreover have "round_double (100 * 1) = Fin 100" using round_double_of_int [of 100] by simp
  ultimately show ?thesis using that by (simp add: static_cast_double_exact)
qed


lemma get_memory_stats_unopened: "proc_meminfo os = None \<Longrightarrow> get_memory_stats os = mem_zero"
  by (simp add: get_memory_stats_def mem_zero_def)

text \<open>
  Memory usage with a positive total that is a \<^verbatim>\<open>long\<close>: a finite percentage between 0
  and 100, also after the four roundings.
\<close>

lemma used_percent_in_range:
  assumes a0: "0 \<le> available_kb s" and at: "available_kb s \<le> total_kb s"
    and t0: "0 < total_kb s" and tmax: "total_kb s \<le> LONG_MAX"
  shows "\<exists>p. used_percent s = Fin p \<and> 0 \<le> p \<and> p \<le> 100"
proof -
  let ?a = "real_of_int (available_kb s)" and ?t = "real_of_int (total_kb s)"
  have t1: "1 \<le> ?t" using t0 by simp
  have "?t \<le> real_of_int LONG_MAX" using tmax by (simp only: of_int_le_iff)
  with long_max_normal have tn: "?t < 2 powi 1023" by linarith
  have up: "used_percent s =
      double_mul (Fin 100) (double_sub (Fin 1) (double_div (round_double ?a) (round_double ?t)))"
    by (simp add: used_percent_def static_cast_double_def)
  have one: "round_double 1 = Fin 1" using round_double_of_int [of 1] by simp
  have hundred: "round_double 100 = Fin 100" using round_double_of_int [of 100] by simp
  have last: "\<exists>p. double_mul (Fin 100) (double_sub (Fin 1) (Fin q)) = Fin p \<and> 0 \<le> p \<and> p \<le> 100"
    if q0: "0 \<le> q" and q1: "q \<le> 1" for q
  proof -
    have "0 \<le> 1 - q" "1 - q \<le> real_of_int 1" using q0 q1 by simp_all
    from round_double_range [OF this] obtain d
      where d: "round_double (1 - q) = Fin d" "0 \<le> d" "d \<le> 1" by auto
    have "0 \<le> 100 * d" "100 * d \<le> real_of_int 100" using d by simp_all
    from round_double_range [OF this] obtain p
      where p: "round_double (100 * d) = Fin p" "0 \<le> p" "p \<le> 100" by auto
    show ?thesis using d p by simp
  qed
  show ?thesis
  proof (cases "available_kb s = 0")
    case True
    from round_double_mono_pos [OF t1 order_refl tn]
    obtain t' where t': "round_double ?t = Fin t'" "1 \<le> t'" by blast
    have "double_div (round_double ?a) (round_double ?t) = Fin 0"
      using True t' by (simp add: round_double_def)
    then show ?thesis using last [of 0] by (simp add: up)
  next
    case False
    with a0 have a1: "1 \<le> ?a" by simp
    have att: "?a \<le> ?t" using at by (simp only: of_int_le_iff)
    from round_double_mono_pos [OF a1 att tn]
    obtain a' t' where c: "round_double ?a = Fin a'" "round_double ?t = Fin t'"
        "1 \<le> a'" "a' \<le> t'"
      by blast
    have tpos: "0 < t'" using c by linarith
    have "0 \<le> a' / t'" using c tpos by simp
    moreover have "a' / t' \<le> real_of_int 1" using c tpos by simp
    ultimately obtain q where q: "round_double (a' / t') = Fin q" "0 \<le> q" "q \<le> 1"
      using round_double_range [of "a' / t'" 1] by auto
    have "double_div (round_double ?a) (round_double ?t) = Fin q"
      using c tpos q by simp
    then show ?thesis using last [OF q(2) q(3)] by (simp add: up)
  qed
qed

text \<open>What one tick leaves untouched, and what it writes.\<close>

lemma get_cpu_usage_log:
  "log_file (snd (get_cpu_usage os m)) = log_file m \<and>
   log_to_file (snd (get_cpu_usage os m)) = log_to_file m"
  by (simp add: get_cpu_usage_def cpu_usage_of_def Let_def)

lemma get_disk_usage_world:
  "cout (snd (get_disk_usage os path w)) = cout w \<and>
   files (snd (get_disk_usage os path w)) = files w \<and>
   openable (snd (get_disk_usage os path w)) = openable w"
  by (simp add: get_disk_usage_def Let_def split: sum.split filesystem_error.split)

lemma get_disk_usage_failed:
  "space os path = Inl e \<Longrightarrow> fst (get_disk_usage os path w) = Fin 0"
  by (cases e) (simp add: get_disk_usage_def)

lemma ofstream_write_world:
  "cout (ofstream_write path mode ls w) = cout w \<and>
   openable (ofstream_write path mode ls w) = openable w"
  by (simp add: ofstream_write_def split: openmode.split)

lemma sleep_for_world:
  "cout (sleep_for n w) = cout w \<and> files (sleep_for n w) = files w \<and>
   openable (sleep_for n w) = openable w"
  by (simp add: sleep_for_def)

lemma monitor_body_cout:
  "cout (snd (monitor_body os interval_seconds count iterations (m, w))) =
     cout w @ [Console_line (get_timestamp os) (fst (get_cpu_usage os m))
                 (used_percent (get_memory_stats os)) (fst (get_disk_usage os ''/'' w))]"
  by (simp add: monitor_body_def Let_def split_beta ofstream_write_world sleep_for_world
        get_disk_usage_world)

lemma monitor_body_monitor:
  "log_file (fst (monitor_body os interval_seconds count iterations (m, w))) = log_file m \<and>
   log_to_file (fst (monitor_body os interval_seconds count iterations (m, w))) = log_to_file m \<and>
   openable (snd (monitor_body os interval_seconds count iterations (m, w))) = openable w"
  by (simp add: monitor_body_def Let_def split_beta ofstream_write_world sleep_for_world
        get_disk_usage_world get_cpu_usage_log)

lemma monitor_body_files:
  "files (snd (monitor_body os interval_seconds count iterations (m, w))) =
     (if log_to_file m \<and> openable w (log_file m)
      then (files w)(log_file m \<mapsto>
             (case files w (log_file m) of None \<Rightarrow> [] | Some old \<Rightarrow> old) @
             [Csv_row (get_timestamp os) (fst (get_cpu_usage os m))
                (used_percent (get_memory_stats os)) (fst (get_disk_usage os ''/'' w))])
      else files w)"
  by (simp add: monitor_body_def Let_def split_beta ofstream_write_def sleep_for_world
        get_disk_usage_world get_cpu_usage_log split: option.split)

text \<open>
  The loop stops at once when \<open>count\<close> is not the sentinel and \<open>iterations\<close> has reached
  it, and makes one more pass otherwise.
\<close>

lemma monitor_loop_stop:
  "count \<noteq> - 1 \<Longrightarrow> count \<le> iterations \<Longrightarrow>
   monitor_loop oss interval_seconds count iterations s = Some s"
  by (subst monitor_loop.simps) simp

lemma monitor_loop_step:
  "count = - 1 \<or> iterations < count \<Longrightarrow>
   monitor_loop oss interval_seconds count iterations s =
     monitor_loop oss interval_seconds count (iterations + 1)
       (monitor_body (oss (nat iterations)) interval_seconds count iterations s)"
  by (subst monitor_loop.simps) simp

text \<open>With a count \<open>n \<ge> 0\<close> the loop returns after exactly \<open>n\<close> passes.\<close>

lemma monitor_loop_ticks:
  "k + j = n \<Longrightarrow>
   monitor_loop oss interval_seconds (int n) (int k) (ticks oss interval_seconds (int n) k s) =
     Some (ticks oss interval_seconds (int n) n s)"
proof (induction j arbitrary: k)
  case 0
  then show ?case by (simp add: monitor_loop_stop)
next
  case (Suc j)
  then have lt: "int k < int n" and nx: "Suc k + j = n" by simp_all
  have "monitor_loop oss interval_seconds (int n) (int k) (ticks oss interval_seconds (int n) k s) =
        monitor_loop oss interval_seconds (int n) (int k + 1)
          (monitor_body (oss (nat (int k))) interval_seconds (int n) (int k)
             (ticks oss interval_seconds (int n) k s))"
    using lt by (simp add: monitor_loop_step)
  also have "\<dots> = monitor_loop oss interval_seconds (int n) (int (Suc k))
                     (ticks oss interval_seconds (int n) (Suc k) s)"
    by (simp add: add.commute)
  also have "\<dots> = Some (ticks oss interval_seconds (int n) n s)"
    using Suc.IH [OF nx] .
  finally show ?case .
qed

lemma monitor_count:
  "monitor oss interval_seconds (int n) s = Some (ticks oss interval_seconds (int n) n s)"
  using monitor_loop_ticks [of 0 n n oss interval_seconds s] by (simp add: monitor_def)

text \<open>A loop that returns was not started with the sentinel.\<close>

lemma monitor_loop_returns:
  assumes "monitor_loop oss interval_seconds count iterations s = Some y"
  shows "count \<noteq> - 1"
proof (rule monitor_loop.raw_induct
    [where P = "\<lambda>oss interval_seconds count iterations s y. count \<noteq> - 1", OF _ assms])
  fix f :: "(nat \<Rightarrow> OS) \<Rightarrow> int \<Rightarrow> int \<Rightarrow> int \<Rightarrow> SystemMonitor \<times> World \<Rightarrow> (SystemMonitor \<times> World) option"
  fix oss interval_seconds count iterations s y
  assume IH: "\<And>oss interval_seconds count iterations s y.
     f oss interval_seconds count iterations s = Some y \<Longrightarrow> count \<noteq> - 1"
  assume body: "(if count = - 1 \<or> iterations < count
      then f oss interval_seconds count (iterations + 1)
             (monitor_body (oss (nat iterations)) interval_seconds count iterations s)
      else Some s) = Some y"
  show "count \<noteq> - 1"
  proof (cases "count = - 1")
    case True
    with body have "f oss interval_seconds count (iterations + 1)
       (monitor_body (oss (nat iterations)) interval_seconds count iterations s) = Some y"
      by simp
    then show ?thesis by (rule IH)
  next
    case False
    then show ?thesis .
  qed
qed

lemma monitor_forever: "monitor oss interval_seconds (- 1) s = None"
proof (cases "monitor oss interval_seconds (- 1) s")
  case None
  then show ?thesis .
next
  case (Some y)
  then have "(- 1 :: int) \<noteq> - 1"
    unfolding monitor_def by (rule monitor_loop_returns)
  then show ?thesis by simp
qed

text \<open>What \<open>k\<close> ticks do to the console, to the monitor and to the log.\<close>

lemma ticks_cout: "length (cout (snd (ticks oss i c k (m, w)))) = length (cout w) + k"
proof (induction k)
  case 0
  show ?case by simp
next
  case (Suc k)
  obtain m' w' where t: "ticks oss i c k (m, w) = (m', w')" by (cases "ticks oss i c k (m, w)")
  with Suc show ?case by (simp add: monitor_body_cout)
qed

lemma ticks_monitor:
  "log_file (fst (ticks oss i c k (m, w))) = log_file m \<and>
   log_to_file (fst (ticks oss i c k (m, w))) = log_to_file m \<and>
   openable (snd (ticks oss i c k (m, w))) = openable w"
proof (induction k)
  case 0
  show ?case by simp
next
  case (Suc k)
  obtain m' w' where t: "ticks oss i c k (m, w) = (m', w')" by (cases "ticks oss i c k (m, w)")
  with Suc show ?case by (simp add: monitor_body_monitor)
qed

lemma ticks_files_logging:
  assumes "log_to_file m" and "openable w (log_file m)" and "files w (log_file m) = Some old"
  shows "\<exists>rows. files (snd (ticks oss i c k (m, w))) (log_file m) = Some (old @ rows) \<and>
           length rows = k \<and> list_all is_csv_row rows"
proof (induction k)
  case 0
  show ?case using assms by simp
next
  case (Suc k)
  obtain m' w' where t: "ticks oss i c k (m, w) = (m', w')" by (cases "ticks oss i c k (m, w)")
  from Suc obtain rows where r: "files w' (log_file m) = Some (old @ rows)"
      "length rows = k" "list_all is_csv_row rows"
    using t by auto
  have mm: "log_file m' = log_file m" "log_to_file m' = log_to_file m" "openable w' = openable w"
    using ticks_monitor [of oss i c k m w] t by simp_all
  let ?row = "Csv_row (get_timestamp (oss k)) (fst (get_cpu_usage (oss k) m'))
                (used_percent (get_memory_stats (oss k))) (fst (get_disk_usage (oss k) ''/'' w'))"
  have "files (snd (ticks oss i c (Suc k) (m, w))) (log_file m) = Some (old @ (rows @ [?row]))"
    using assms r mm by (simp add: t monitor_body_files)
  moreover have "length (rows @ [?row]) = Suc k" using r by simp
  moreover have "list_all is_csv_row (rows @ [?row])" using r by simp
  ultimately show ?case by blast
qed

lemma ticks_files_other:
  "log_to_file m = False \<or> openable w (log_file m) = False \<Longrightarrow>
   files (snd (ticks oss i c k (m, w))) = files w"
proof (induction k)
  case 0
  show ?case by simp
next
  case (Suc k)
  obtain m' w' where t: "ticks oss i c k (m, w) = (m', w')" by (cases "ticks oss i c k (m, w)")
  have mm: "log_file m' = log_file m" "log_to_file m' = log_to_file m" "openable w' = openable w"
    using ticks_monitor [of oss i c k m w] t by simp_all
  from Suc t have "files w' = files w" by simp
  with Suc.prems mm show ?case by (auto simp add: t monitor_body_files)
qed

text \<open>The constructor's monitor and log.\<close>

lemma ctor_logging:
  "path \<noteq> [] \<Longrightarrow>
   log_to_file (fst (SystemMonitor_ctor garbage path w)) \<and>
   log_file (fst (SystemMonitor_ctor garbage path w)) = path \<and>
   openable (snd (SystemMonitor_ctor garbage path w)) = openable w \<and>
   files (snd (SystemMonitor_ctor garbage path w)) =
     (if openable w path then (files w)(path \<mapsto> [csv_header]) else files w)"
  by (simp add: SystemMonitor_ctor_def Let_def ofstream_write_def)

lemma ctor_no_logging:
  "log_to_file (fst (SystemMonitor_ctor garbage [] w)) = False \<and>
   snd (SystemMonitor_ctor garbage [] w) = w"
  by (simp add: SystemMonitor_ctor_def Let_def)

text \<open>\<^verbatim>\<open>main\<close> on the request for help and on a bounded run: both end with \<^verbatim>\<open>return 0\<close>.\<close>

lemma main_help:
  "main [prog, ''--help''] garbage oss w = Some (Exit 0, print_help w) \<and>
   main [prog, ''-h''] garbage oss w = Some (Exit 0, print_help w)"
  by (simp add: main_def is_help_def)


subsection \<open>The CPU usage tracker\<close>

text \<open>
  The answer to a second reading, for two readings whose arithmetic does not wrap: the
  expression of line 100 on the differences of the sums.
\<close>

lemma second_reading_in_range:
  assumes ra: "counters_in_range ra" and rb: "counters_in_range rb"
    and first: "first_cpu_reading m"
  shows "fst (cpu_usage_of rb (snd (cpu_usage_of ra m))) =
     (if CPUStats_total ra < CPUStats_total rb
      then double_mul (Fin 100)
             (double_div (static_cast_double (CPUStats_active rb - CPUStats_active ra))
                         (static_cast_double (CPUStats_total rb - CPUStats_total ra)))
      else Fin 0)"
proof -
  have cold: "cpu_usage_of ra m = (Fin 0, m\<lparr>first_cpu_reading := False, prev_cpu_stats := ra\<rparr>)"
    using first by (rule cpu_usage_of_first)
  have dt: "long_sub (CPUStats_total rb) (CPUStats_total ra) =
      CPUStats_total rb - CPUStats_total ra"
    and da: "long_sub (CPUStats_active rb) (CPUStats_active ra) =
      CPUStats_active rb - CPUStats_active ra"
    using cpu_arithmetic_in_range [OF ra rb] by simp_all
  show ?thesis
    by (simp add: cold cpu_usage_of_next dt da)
qed

text \<open>
  Claim C1 says that a fresh tracker answers 0.0 to a first reading and
  \<open>100 * (active rb - active ra) / (total rb - total ra)\<close> to a second reading of greater
  total, for every pair of readings. The second half fails for two reasons. The answer
  is computed in \<^verbatim>\<open>double\<close>: after the all-zero reading, the reading (user 7, idle 93)
  has the exact quotient 7 and is answered with \<open>7 + 2 ^ - 50\<close>, the double next above
  7, because 7.0 / 100 is rounded before it is multiplied by 100.0. And the sums are
  computed in \<^verbatim>\<open>long\<close>: after the all-zero reading, the reading (user \<open>LONG_MAX\<close>, nice 1)
  has a sum of counters greater than 0, its \<^verbatim>\<open>total()\<close> wraps around to \<open>LONG_MIN\<close>, and
  it is answered with 0.0.
\<close>

theorem cpu_usage_formula_counterexample:
  "CPUStats_total cpu_zero < CPUStats_total cpu_seven \<and>
   100 * real_of_int (CPUStats_active cpu_seven - CPUStats_active cpu_zero) /
         real_of_int (CPUStats_total cpu_seven - CPUStats_total cpu_zero) = 7 \<and>
   fst (cpu_usage_of cpu_seven
          (snd (cpu_usage_of cpu_zero (fst (SystemMonitor_ctor cpu_zero [] world_empty))))) =
     Fin (7 + 1 / 2 ^ 50) \<and>
   (7 + 1 / 2 ^ 50 :: real) \<noteq> 7 \<and>
   user cpu_zero + nice cpu_zero + system cpu_zero + idle cpu_zero + iowait cpu_zero +
     irq cpu_zero + softirq cpu_zero + steal cpu_zero <
   user cpu_wrapped + nice cpu_wrapped + system cpu_wrapped + idle cpu_wrapped +
     iowait cpu_wrapped + irq cpu_wrapped + softirq cpu_wrapped + steal cpu_wrapped \<and>
   get_cpu_stats os_wrapped = cpu_wrapped \<and>
   CPUStats_total cpu_wrapped = LONG_MIN \<and>
   fst (cpu_usage_of cpu_wrapped
          (snd (cpu_usage_of cpu_zero (fst (SystemMonitor_ctor cpu_zero [] world_empty))))) =
     Fin 0"
proof -
  let ?m = "fst (SystemMonitor_ctor cpu_zero [] world_empty)"
  have first: "first_cpu_reading ?m" by (rule ctor_first)
  have cold: "cpu_usage_of cpu_zero ?m =
      (Fin 0, ?m\<lparr>first_cpu_reading := False, prev_cpu_stats := cpu_zero\<rparr>)"
    using first by (rule cpu_usage_of_first)
  have a: "CPUStats_total cpu_zero < CPUStats_total cpu_seven"
    by (simp add: totals_examples)
  have b: "100 * real_of_int (CPUStats_active cpu_seven - CPUStats_active cpu_zero) /
         real_of_int (CPUStats_total cpu_seven - CPUStats_total cpu_zero) = 7"
    by (simp add: totals_examples)
  have rng: "counters_in_range cpu_zero" "counters_in_range cpu_seven"
    using examples_in_range by simp_all
  have c: "fst (cpu_usage_of cpu_seven (snd (cpu_usage_of cpu_zero ?m))) = Fin (7 + 1 / 2 ^ 50)"
    using second_reading_in_range [OF rng first]
    by (simp add: totals_examples percent_7_100)
  have d: "(7 + 1 / 2 ^ 50 :: real) \<noteq> 7" by simp
  have e: "user cpu_zero + nice cpu_zero + system cpu_zero + idle cpu_zero + iowait cpu_zero +
     irq cpu_zero + softirq cpu_zero + steal cpu_zero <
     user cpu_wrapped + nice cpu_wrapped + system cpu_wrapped + idle cpu_wrapped +
     iowait cpu_wrapped + irq cpu_wrapped + softirq cpu_wrapped + steal cpu_wrapped"
    by (simp add: cpu_zero_def cpu_wrapped_def LONG_MAX_def)
  have f: "get_cpu_stats os_wrapped = cpu_wrapped" by (rule get_cpu_stats_wrapped)
  have g: "CPUStats_total cpu_wrapped = LONG_MIN"
    by (simp add: totals_wrapping LONG_MIN_def)
  have "long_sub (CPUStats_total cpu_wrapped) (CPUStats_total cpu_zero) = - (2 ^ 63)"
    by (simp add: totals_wrapping totals_examples long_sub_def wrap_long_def)
  then have h: "fst (cpu_usage_of cpu_wrapped (snd (cpu_usage_of cpu_zero ?m))) = Fin 0"
    by (simp add: cold cpu_usage_of_next)
  from a b c d e f g h show ?thesis by blast
qed

text \<open>
  Claim C1, amended. Fed to a freshly constructed monitor, a first reading \<open>ra\<close> is
  answered with 0.0 (cold start); for \<open>ra\<close> = (user 100, idle 900, the others 0) and
  \<open>rb\<close> = (user 200, idle 1800, the others 0) the second answer is exactly 10.0. When
  every counter of both readings lies between 0 and \<open>2 ^ 59\<close>, the total is the sum of
  the eight counters, active is the total minus idle minus iowait, and a second
  reading \<open>rb\<close> whose total exceeds the total of \<open>ra\<close> is answered with the \<^verbatim>\<open>double\<close> value
  of \<open>100.0 * (double (active rb - active ra) / double (total rb - total ra))\<close>, each
  operation rounded to the nearest double. When moreover both differences are below
  \<open>2 ^ 53\<close> in magnitude, that answer is finite and differs from the exact
  \<open>100 * (active rb - active ra) / (total rb - total ra)\<close> by at most \<open>2 ^ - 51\<close> of it.
\<close>

theorem cpu_usage_two_readings:
  "fst (cpu_usage_of ra (fst (SystemMonitor_ctor garbage path w))) = Fin 0 \<and>
   fst (cpu_usage_of cpu_second
          (snd (cpu_usage_of cpu_first (fst (SystemMonitor_ctor garbage path w))))) = Fin 10 \<and>
   (counters_in_range ra \<and> counters_in_range rb \<longrightarrow>
      CPUStats_total rb =
        user rb + nice rb + system rb + idle rb + iowait rb + irq rb + softirq rb + steal rb \<and>
      CPUStats_active rb = CPUStats_total rb - idle rb - iowait rb \<and>
      (CPUStats_total ra < CPUStats_total rb \<longrightarrow>
         fst (cpu_usage_of rb (snd (cpu_usage_of ra (fst (SystemMonitor_ctor garbage path w))))) =
           double_mul (Fin 100)
             (double_div (static_cast_double (CPUStats_active rb - CPUStats_active ra))
                         (static_cast_double (CPUStats_total rb - CPUStats_total ra)))) \<and>
      (CPUStats_total ra < CPUStats_total rb \<and>
       CPUStats_total rb - CPUStats_total ra < 2 ^ 53 \<and>
       \<bar>CPUStats_active rb - CPUStats_active ra\<bar> < 2 ^ 53 \<longrightarrow>
         (\<exists>p. fst (cpu_usage_of rb
                      (snd (cpu_usage_of ra (fst (SystemMonitor_ctor garbage path w))))) = Fin p \<and>
              \<bar>p - 100 * real_of_int (CPUStats_active rb - CPUStats_active ra) /
                         real_of_int (CPUStats_total rb - CPUStats_total ra)\<bar> \<le>
              \<bar>100 * real_of_int (CPUStats_active rb - CPUStats_active ra) /
                     real_of_int (CPUStats_total rb - CPUStats_total ra)\<bar> / 2 ^ 51)))"
proof -
  let ?m = "fst (SystemMonitor_ctor garbage path w)"
  have first: "first_cpu_reading ?m" by (rule ctor_first)
  have a: "fst (cpu_usage_of ra ?m) = Fin 0"
    by (simp add: cpu_usage_of_first [OF first])
  have rng: "counters_in_range cpu_first" "counters_in_range cpu_second"
    using examples_in_range by simp_all
  have b: "fst (cpu_usage_of cpu_second (snd (cpu_usage_of cpu_first ?m))) = Fin 10"
    using second_reading_in_range [OF rng first]
    by (simp add: totals_examples percent_100_1000)
  have c: "CPUStats_total rb =
        user rb + nice rb + system rb + idle rb + iowait rb + irq rb + softirq rb + steal rb \<and>
      CPUStats_active rb = CPUStats_total rb - idle rb - iowait rb \<and>
      (CPUStats_total ra < CPUStats_total rb \<longrightarrow>
         fst (cpu_usage_of rb (snd (cpu_usage_of ra ?m))) =
           double_mul (Fin 100)
             (double_div (static_cast_double (CPUStats_active rb - CPUStats_active ra))
                         (static_cast_double (CPUStats_total rb - CPUStats_total ra)))) \<and>
      (CPUStats_total ra < CPUStats_total rb \<and>
       CPUStats_total rb - CPUStats_total ra < 2 ^ 53 \<and>
       \<bar>CPUStats_active rb - CPUStats_active ra\<bar> < 2 ^ 53 \<longrightarrow>
         (\<exists>p. fst (cpu_usage_of rb (snd (cpu_usage_of ra ?m))) = Fin p \<and>
              \<bar>p - 100 * real_of_int (CPUStats_active rb - CPUStats_active ra) /
                         real_of_int (CPUStats_total rb - CPUStats_total ra)\<bar> \<le>
              \<bar>100 * real_of_int (CPUStats_active rb - CPUStats_active ra) /
                     real_of_int (CPUStats_total rb - CPUStats_total ra)\<bar> / 2 ^ 51))"
    if ra: "counters_in_range ra" and rb: "counters_in_range rb"
  proof -
    have sum: "CPUStats_total rb =
        user rb + nice rb + system rb + idle rb + iowait rb + irq rb + softirq rb + steal rb"
      and act: "CPUStats_active rb =
        user rb + nice rb + system rb + irq rb + softirq rb + steal rb"
      using cpu_arithmetic_in_range [OF rb rb] by simp_all
    have act': "CPUStats_active rb = CPUStats_total rb - idle rb - iowait rb"
      by (simp add: sum act)
    have second: "fst (cpu_usage_of rb (snd (cpu_usage_of ra ?m))) =
        double_mul (Fin 100)
          (double_div (static_cast_double (CPUStats_active rb - CPUStats_active ra))
                      (static_cast_double (CPUStats_total rb - CPUStats_total ra)))"
      if "CPUStats_total ra < CPUStats_total rb"
      using second_reading_in_range [OF ra rb first] that by simp
    have bound: "\<exists>p. fst (cpu_usage_of rb (snd (cpu_usage_of ra ?m))) = Fin p \<and>
              \<bar>p - 100 * real_of_int (CPUStats_active rb - CPUStats_active ra) /
                         real_of_int (CPUStats_total rb - CPUStats_total ra)\<bar> \<le>
              \<bar>100 * real_of_int (CPUStats_active rb - CPUStats_active ra) /
                     real_of_int (CPUStats_total rb - CPUStats_total ra)\<bar> / 2 ^ 51"
      if lt: "CPUStats_total ra < CPUStats_total rb"
        and dt: "CPUStats_total rb - CPUStats_total ra < 2 ^ 53"
        and da: "\<bar>CPUStats_active rb - CPUStats_active ra\<bar> < 2 ^ 53"
    proof -
      have pos: "0 < CPUStats_total rb - CPUStats_total ra" using lt by simp
      show ?thesis
        using percent_error [OF pos dt da] by (simp only: second [OF lt])
    qed
    from sum act' second bound show ?thesis by blast
  qed
  from a b c show ?thesis by blast
qed

text \<open>
  The two readings of the example as the lines of \<^verbatim>\<open>/proc/stat\<close> at two successive
  ticks, through \<^verbatim>\<open>get_cpu_usage\<close>.
\<close>

theorem cpu_usage_two_readings_witness:
  "counters_in_range (get_cpu_stats os_first) \<and> counters_in_range (get_cpu_stats os_second) \<and>
   CPUStats_total (get_cpu_stats os_first) < CPUStats_total (get_cpu_stats os_second) \<and>
   CPUStats_total (get_cpu_stats os_second) - CPUStats_total (get_cpu_stats os_first) < 2 ^ 53 \<and>
   \<bar>CPUStats_active (get_cpu_stats os_second) - CPUStats_active (get_cpu_stats os_first)\<bar> < 2 ^ 53 \<and>
   fst (get_cpu_usage os_first (fst (SystemMonitor_ctor cpu_zero [] world_empty))) = Fin 0 \<and>
   fst (get_cpu_usage os_second
          (snd (get_cpu_usage os_first (fst (SystemMonitor_ctor cpu_zero [] world_empty))))) =
     Fin 10 \<and>
   \<bar>10 - 100 * real_of_int (CPUStats_active (get_cpu_stats os_second) -
                              CPUStats_active (get_cpu_stats os_first)) /
                 real_of_int (CPUStats_total (get_cpu_stats os_second) -
                              CPUStats_total (get_cpu_stats os_first))\<bar> \<le>
   \<bar>100 * real_of_int (CPUStats_active (get_cpu_stats os_second) -
                         CPUStats_active (get_cpu_stats os_first)) /
            real_of_int (CPUStats_total (get_cpu_stats os_second) -
                         CPUStats_total (get_cpu_stats os_first))\<bar> / 2 ^ 51"
  using cpu_usage_two_readings [where ra = cpu_first and rb = cpu_second
      and garbage = cpu_zero and path = "[]" and w = world_empty]
  by (simp add: get_cpu_usage_def get_cpu_stats_first get_cpu_stats_second totals_examples
        examples_in_range)

text \<open>
  Claim C4 says that a monitor that holds a previous reading answers exactly 0.0 to
  every reading whose total is not greater. With sums that wrap around this fails:
  after the reading (user, nice, system all \<open>LONG_MAX\<close>) the reading (user \<open>LONG_MAX\<close>,
  nice 1) has the smaller sum of counters and the smaller \<^verbatim>\<open>total()\<close>, the difference
  of the two totals wraps around to 3, and the answer is 100.0. So it is after the
  reading (user, nice both \<open>LONG_MAX\<close>) for the reading (user 5), whose sum of counters
  is smaller: \<^verbatim>\<open>total()\<close> of the first is \<open>- 2\<close>, the difference is 7, the answer 100.0.
\<close>

theorem cpu_usage_regression_counterexample:
  "get_cpu_stats os_huge = cpu_huge \<and>
   get_cpu_stats os_wrapped = cpu_wrapped \<and>
   first_cpu_reading
     (snd (cpu_usage_of cpu_huge (fst (SystemMonitor_ctor cpu_zero [] world_empty)))) = False \<and>
   prev_cpu_stats
     (snd (cpu_usage_of cpu_huge (fst (SystemMonitor_ctor cpu_zero [] world_empty)))) = cpu_huge \<and>
   CPUStats_total cpu_wrapped \<le> CPUStats_total cpu_huge \<and>
   user cpu_wrapped + nice cpu_wrapped + system cpu_wrapped + idle cpu_wrapped +
     iowait cpu_wrapped + irq cpu_wrapped + softirq cpu_wrapped + steal cpu_wrapped \<le>
   user cpu_huge + nice cpu_huge + system cpu_huge + idle cpu_huge + iowait cpu_huge +
     irq cpu_huge + softirq cpu_huge + steal cpu_huge \<and>
   fst (cpu_usage_of cpu_wrapped
          (snd (cpu_usage_of cpu_huge (fst (SystemMonitor_ctor cpu_zero [] world_empty))))) =
     Fin 100 \<and>
   user cpu_five + nice cpu_five + system cpu_five + idle cpu_five + iowait cpu_five +
     irq cpu_five + softirq cpu_five + steal cpu_five \<le>
   user cpu_pair + nice cpu_pair + system cpu_pair + idle cpu_pair + iowait cpu_pair +
     irq cpu_pair + softirq cpu_pair + steal cpu_pair \<and>
   fst (cpu_usage_of cpu_five
          (snd (cpu_usage_of cpu_pair (fst (SystemMonitor_ctor cpu_zero [] world_empty))))) =
     Fin 100"
proof -
  let ?m = "fst (SystemMonitor_ctor cpu_zero [] world_empty)"
  have first: "first_cpu_reading ?m" by (rule ctor_first)
  have cold: "\<And>r. cpu_usage_of r ?m =
      (Fin 0, ?m\<lparr>first_cpu_reading := False, prev_cpu_stats := r\<rparr>)"
    using first by (rule cpu_usage_of_first)
  have a: "get_cpu_stats os_huge = cpu_huge" by (rule get_cpu_stats_huge)
  have b: "get_cpu_stats os_wrapped = cpu_wrapped" by (rule get_cpu_stats_wrapped)
  have c: "first_cpu_reading (snd (cpu_usage_of cpu_huge ?m)) = False"
    by (simp add: cold)
  have d: "prev_cpu_stats (snd (cpu_usage_of cpu_huge ?m)) = cpu_huge"
    by (simp add: cold)
  have e: "CPUStats_total cpu_wrapped \<le> CPUStats_total cpu_huge"
    by (simp add: totals_wrapping)
  have f: "user cpu_wrapped + nice cpu_wrapped + system cpu_wrapped + idle cpu_wrapped +
     iowait cpu_wrapped + irq cpu_wrapped + softirq cpu_wrapped + steal cpu_wrapped \<le>
     user cpu_huge + nice cpu_huge + system cpu_huge + idle cpu_huge + iowait cpu_huge +
     irq cpu_huge + softirq cpu_huge + steal cpu_huge"
    by (simp add: cpu_wrapped_def cpu_huge_def LONG_MAX_def)
  have d1: "long_sub (CPUStats_total cpu_wrapped) (CPUStats_total cpu_huge) = 3"
      "long_sub (CPUStats_active cpu_wrapped) (CPUStats_active cpu_huge) = 3"
    by (simp_all add: totals_wrapping long_sub_def wrap_long_def)
  have g: "fst (cpu_usage_of cpu_wrapped (snd (cpu_usage_of cpu_huge ?m))) = Fin 100"
    by (simp add: cold cpu_usage_of_next d1 percent_equal)
  have h: "user cpu_five + nice cpu_five + system cpu_five + idle cpu_five + iowait cpu_five +
     irq cpu_five + softirq cpu_five + steal cpu_five \<le>
     user cpu_pair + nice cpu_pair + system cpu_pair + idle cpu_pair + iowait cpu_pair +
     irq cpu_pair + softirq cpu_pair + steal cpu_pair"
    by (simp add: cpu_five_def cpu_pair_def LONG_MAX_def)
  have d2: "long_sub (CPUStats_total cpu_five) (CPUStats_total cpu_pair) = 7"
      "long_sub (CPUStats_active cpu_five) (CPUStats_active cpu_pair) = 7"
    by (simp_all add: totals_wrapping long_sub_def wrap_long_def)
  have i: "fst (cpu_usage_of cpu_five (snd (cpu_usage_of cpu_pair ?m))) = Fin 100"
    by (simp add: cold cpu_usage_of_next d2 percent_equal)
  from a b c d e f g h i show ?thesis by blast
qed

text \<open>
  Claim C4, amended. A monitor that holds a previous reading \<open>ra\<close> answers exactly 0.0 to
  a reading \<open>rb\<close> whose total is not greater than the total of \<open>ra\<close> (the counters went
  back, or no time has passed), an answer neither negative nor NaN, when every counter
  of both readings lies between 0 and \<open>2 ^ 59\<close>, so that no sum and no difference
  wraps around.
\<close>

theorem cpu_usage_regression_zero:
  "first_cpu_reading m = False \<Longrightarrow> prev_cpu_stats m = ra \<Longrightarrow>
   counters_in_range ra \<Longrightarrow> counters_in_range rb \<Longrightarrow>
   CPUStats_total rb \<le> CPUStats_total ra \<Longrightarrow>
   fst (cpu_usage_of rb m) = Fin 0 \<and>
   fst (cpu_usage_of rb m) \<noteq> NaN \<and>
   double_less (fst (cpu_usage_of rb m)) (Fin 0) = False"
proof -
  assume later: "first_cpu_reading m = False" and prev: "prev_cpu_stats m = ra"
    and ra: "counters_in_range ra" and rb: "counters_in_range rb"
    and regress: "CPUStats_total rb \<le> CPUStats_total ra"
  have "long_sub (CPUStats_total rb) (CPUStats_total ra) = CPUStats_total rb - CPUStats_total ra"
    using cpu_arithmetic_in_range [OF ra rb] by simp
  with regress prev
  have guard: "\<not> 0 < long_sub (CPUStats_total rb) (CPUStats_total (prev_cpu_stats m))"
    by simp
  have "fst (cpu_usage_of rb m) = Fin 0"
    using guard by (simp add: cpu_usage_of_next [OF later])
  then show ?thesis by simp
qed

theorem cpu_usage_regression_zero_witness:
  "first_cpu_reading (snd (cpu_usage_of cpu_second (fst (SystemMonitor_ctor cpu_zero [] world_empty))))
     = False \<and>
   prev_cpu_stats (snd (cpu_usage_of cpu_second (fst (SystemMonitor_ctor cpu_zero [] world_empty))))
     = cpu_second \<and>
   counters_in_range cpu_second \<and> counters_in_range cpu_first \<and>
   CPUStats_total cpu_first \<le> CPUStats_total cpu_second \<and>
   fst (cpu_usage_of cpu_first
          (snd (cpu_usage_of cpu_second (fst (SystemMonitor_ctor cpu_zero [] world_empty))))) = Fin 0"
  using cpu_usage_regression_zero
    [where m = "snd (cpu_usage_of cpu_second (fst (SystemMonitor_ctor cpu_zero [] world_empty)))"
       and ra = cpu_second and rb = cpu_first]
  by (simp add: cpu_usage_of_first ctor_first totals_examples examples_in_range)

text \<open>
  Claim C5. After every call of the tracker with a reading \<open>current\<close>, on the cold-start
  path as on the difference path, the stored previous reading is \<open>current\<close>; for
  \<^verbatim>\<open>get_cpu_usage\<close> it is the reading just taken from the system.
\<close>

theorem baseline_replaced:
  "prev_cpu_stats (snd (cpu_usage_of current m)) = current \<and>
   prev_cpu_stats (snd (get_cpu_usage os m)) = get_cpu_stats os"
  by (cases "first_cpu_reading m")
     (simp_all add: get_cpu_usage_def cpu_usage_of_first cpu_usage_of_next)

text \<open>
  Claim C10. A monitor whose previous reading is \<open>r\<close>, given \<open>r\<close> again, answers exactly
  0.0 (the total difference 0 takes the guarded branch), an answer neither negative nor
  NaN, and keeps \<open>r\<close> as its previous reading.
\<close>

theorem duplicate_reading_zero:
  "first_cpu_reading m = False \<Longrightarrow> prev_cpu_stats m = r \<Longrightarrow>
   fst (cpu_usage_of r m) = Fin 0 \<and>
   fst (cpu_usage_of r m) \<noteq> NaN \<and>
   double_less (fst (cpu_usage_of r m)) (Fin 0) = False \<and>
   prev_cpu_stats (snd (cpu_usage_of r m)) = r"
proof -
  assume later: "first_cpu_reading m = False" and prev: "prev_cpu_stats m = r"
  have delta: "long_sub (CPUStats_total r) (CPUStats_total (prev_cpu_stats m)) = 0"
    by (simp add: prev long_sub_self)
  have "cpu_usage_of r m = (Fin 0, m\<lparr>prev_cpu_stats := r\<rparr>)"
    by (simp add: cpu_usage_of_next [OF later] delta)
  then show ?thesis by simp
qed

theorem duplicate_reading_zero_witness:
  "first_cpu_reading (snd (get_cpu_usage os_first (fst (SystemMonitor_ctor cpu_zero [] world_empty))))
     = False \<and>
   prev_cpu_stats (snd (get_cpu_usage os_first (fst (SystemMonitor_ctor cpu_zero [] world_empty))))
     = cpu_first \<and>
   get_cpu_usage os_first
     (snd (get_cpu_usage os_first (fst (SystemMonitor_ctor cpu_zero [] world_empty)))) =
     (Fin 0, snd (get_cpu_usage os_first (fst (SystemMonitor_ctor cpu_zero [] world_empty))))"
  using duplicate_reading_zero
    [where m = "snd (get_cpu_usage os_first (fst (SystemMonitor_ctor cpu_zero [] world_empty)))"
       and r = cpu_first]
  by (simp add: get_cpu_usage_def get_cpu_stats_first cpu_usage_of_first cpu_usage_of_next
        ctor_first)

subsection \<open>Memory usage\<close>

text \<open>
  Claim C2 says that the memory percentage lies in [0, 100] whenever
  \<open>total \<ge> available \<ge> 0\<close>, and is 0.0 when the total is 0, the division being guarded.
  \<^verbatim>\<open>used_percent\<close> has no such guard (\<open>used_percent_in_range\<close> gives the range for a
  positive total only). Evaluated at a total of 0: with \<open>available = 0\<close> the result is
  NaN, with a positive \<open>available\<close> it is minus infinity. The all-zero reading is what
  \<^verbatim>\<open>get_memory_stats\<close> returns when \<^verbatim>\<open>/proc/meminfo\<close> cannot be opened, and the tick then
  prints NaN as the memory value.
\<close>

theorem used_percent_zero_total:
  "used_percent mem_zero = NaN \<and>
   used_percent (mem_zero\<lparr>available_kb := 5\<rparr>) = NInf \<and>
   get_memory_stats os_unreadable = mem_zero \<and>
   cout (snd (monitor_body os_unreadable 1 1 0
                (fst (SystemMonitor_ctor cpu_zero [] world_empty), world_empty))) =
     [Console_line ''2024-01-01 00:00:00'' (Fin 0) NaN (Fin 75)]"
proof -
  have a: "used_percent mem_zero = NaN"
    by (simp add: used_percent_def static_cast_double_exact mem_zero_def)
  have b: "used_percent (mem_zero\<lparr>available_kb := 5\<rparr>) = NInf"
    by (simp add: used_percent_def static_cast_double_exact mem_zero_def)
  have c: "get_memory_stats os_unreadable = mem_zero"
    by (rule get_memory_stats_unopened) (simp add: os_unreadable_def)
  have d: "fst (get_cpu_usage os_unreadable (fst (SystemMonitor_ctor cpu_zero [] world_empty))) = Fin 0"
    by (simp add: get_cpu_usage_def cpu_usage_of_first ctor_first)
  have e: "fst (get_disk_usage os_unreadable ''/'' world_empty) = Fin 75"
    using disk_usage_first [of world_empty]
    by (simp add: get_disk_usage_def os_unreadable_def)
  have f: "get_timestamp os_unreadable = ''2024-01-01 00:00:00''"
    by (simp add: get_timestamp_def os_unreadable_def os_first_def)
  have g: "cout world_empty = []" by (simp add: world_empty_def)
  show ?thesis
    by (simp only: a b c d e f g monitor_body_cout append_Nil simp_thms)
qed

subsection \<open>Sources that cannot be opened\<close>




subsection \<open>Disk usage\<close>

text \<open>
  Claim C7. When the filesystem query fails for the path asked (it does not exist or
  cannot be queried), \<^verbatim>\<open>get_disk_usage\<close> returns 0.0 and propagates nothing. A tick
  whose disk query fails still prints its console line, with the CPU and memory values
  of that tick and 0.0 for the disk; and neither the CPU usage nor the memory reading
  depends on what the filesystem query does.
\<close>

theorem disk_failure_degrades:
  "(space os path = Inl e \<longrightarrow> fst (get_disk_usage os path w) = Fin 0) \<and>
   (space os ''/'' = Inl e \<longrightarrow>
      cout (snd (monitor_body os interval_seconds count iterations (m, w))) =
        cout w @ [Console_line (get_timestamp os) (fst (get_cpu_usage os m))
                    (used_percent (get_memory_stats os)) (Fin 0)]) \<and>
   get_cpu_usage (os\<lparr>space := f\<rparr>) m = get_cpu_usage os m \<and>
   get_memory_stats (os\<lparr>space := f\<rparr>) = get_memory_stats os"
proof -
  have a: "space os path = Inl e \<longrightarrow> fst (get_disk_usage os path w) = Fin 0"
    by (simp add: get_disk_usage_failed)
  have b: "space os ''/'' = Inl e \<longrightarrow>
      cout (snd (monitor_body os interval_seconds count iterations (m, w))) =
        cout w @ [Console_line (get_timestamp os) (fst (get_cpu_usage os m))
                    (used_percent (get_memory_stats os)) (Fin 0)]"
    by (simp add: monitor_body_cout get_disk_usage_failed)
  have c: "get_cpu_usage (os\<lparr>space := f\<rparr>) m = get_cpu_usage os m"
    by (simp add: get_cpu_usage_def get_cpu_stats_def)
  have d: "get_memory_stats (os\<lparr>space := f\<rparr>) = get_memory_stats os"
    by (simp add: get_memory_stats_def Let_def split: option.split)
  from a b c d show ?thesis by blast
qed

theorem disk_failure_degrades_witness:
  "space os_no_disk ''/nonexistent'' = Inl (Filesystem_error ''filesystem error'') \<and>
   fst (get_disk_usage os_no_disk ''/nonexistent'' world_empty) = Fin 0 \<and>
   space os_no_disk ''/'' = Inl (Filesystem_error ''filesystem error'') \<and>
   cout (snd (monitor_body os_no_disk 1 1 0
                (fst (SystemMonitor_ctor cpu_zero [] world_empty), world_empty))) =
     [Console_line ''2024-01-01 00:00:00'' (Fin 0) (Fin 75) (Fin 0)]"
proof -
  have sp: "space os_no_disk = (\<lambda>p. Inl (Filesystem_error ''filesystem error''))"
    by (simp add: os_no_disk_def)
  have cpu: "fst (get_cpu_usage os_no_disk (fst (SystemMonitor_ctor cpu_zero [] world_empty))) = Fin 0"
    by (simp add: get_cpu_usage_def cpu_usage_of_first ctor_first)
  have ts: "get_timestamp os_no_disk = ''2024-01-01 00:00:00''"
    by (simp add: get_timestamp_def os_no_disk_def os_first_def)
  have w: "cout world_empty = []" by (simp add: world_empty_def)
  show ?thesis
    using disk_failure_degrades [where os = os_no_disk and path = "''/nonexistent''"
        and e = "Filesystem_error ''filesystem error''" and w = world_empty
        and m = "fst (SystemMonitor_ctor cpu_zero [] world_empty)"
        and interval_seconds = 1 and count = 1 and iterations = 0]
    by (simp add: sp cpu ts w used_percent_no_disk)
qed

subsection \<open>The monitoring session\<close>

text \<open>
  Claim C6 says that a session with count \<open>n \<ge> 0\<close> makes exactly \<open>n\<close> ticks, prints \<open>n\<close>
  console lines and, when logging is enabled, leaves a log of the header and \<open>n\<close> data
  rows. With a log path that cannot be opened for writing, logging is enabled
  (\<^verbatim>\<open>log_to_file\<close> is true), the three ticks are made and printed, and no log exists
  afterwards: the streams are never tested, and their insertions are no-ops.
\<close>

theorem log_unopenable_counterexample:
  "log_to_file (fst (SystemMonitor_ctor cpu_zero ''/nonexistent/log.csv'' world_readonly)) \<and>
   monitor oss_steady 0 3 (SystemMonitor_ctor cpu_zero ''/nonexistent/log.csv'' world_readonly) =
     Some (ticks oss_steady 0 3 3
             (SystemMonitor_ctor cpu_zero ''/nonexistent/log.csv'' world_readonly)) \<and>
   length (cout (snd (ticks oss_steady 0 3 3
             (SystemMonitor_ctor cpu_zero ''/nonexistent/log.csv'' world_readonly)))) = 3 \<and>
   files (snd (ticks oss_steady 0 3 3
             (SystemMonitor_ctor cpu_zero ''/nonexistent/log.csv'' world_readonly)))
     ''/nonexistent/log.csv'' = None"
proof -
  let ?path = "''/nonexistent/log.csv''"
  obtain m0 w0 where s0: "SystemMonitor_ctor cpu_zero ?path world_readonly = (m0, w0)"
    by (cases "SystemMonitor_ctor cpu_zero ?path world_readonly")
  have ne: "?path \<noteq> []" by simp
  have ro: "openable world_readonly ?path = False" "files world_readonly ?path = None"
      "cout world_readonly = []"
    by (simp_all add: world_readonly_def world_empty_def)
  have m0: "log_to_file m0" "log_file m0 = ?path" "openable w0 = openable world_readonly"
      "files w0 = files world_readonly"
    using ctor_logging [OF ne, of cpu_zero world_readonly] s0 by (simp_all add: ro)
  have c0: "cout w0 = []"
    using ctor_cout [of cpu_zero ?path world_readonly] s0 by (simp add: ro)
  have len: "length (cout (snd (ticks oss_steady 0 3 3 (m0, w0)))) = 3"
    using ticks_cout [of oss_steady 0 3 3 m0 w0] by (simp add: c0)
  have "files (snd (ticks oss_steady 0 3 3 (m0, w0))) = files w0"
    using m0 ro by (simp add: ticks_files_other)
  then have fil: "files (snd (ticks oss_steady 0 3 3 (m0, w0))) ?path = None"
    by (simp add: m0 ro)
  have run: "monitor oss_steady 0 3 (m0, w0) = Some (ticks oss_steady 0 3 3 (m0, w0))"
    using monitor_count [of oss_steady 0 3 "(m0, w0)"] by simp
  show ?thesis
    using m0(1) by (simp add: s0 run len fil)
qed

text \<open>
  Claim C6, amended. A session with count \<open>n \<ge> 0\<close> returns after exactly \<open>n\<close> passes
  through the loop body and has printed exactly \<open>n\<close> console lines. When a log path is
  given and can be opened for writing, the log then holds the header (written once, in
  place of any earlier content) followed by exactly \<open>n\<close> data rows. When no log path is
  given, or the path cannot be opened, no file is changed.
\<close>

theorem session_ticks:
  "\<exists>m' w'.
     monitor oss interval_seconds (int n) (SystemMonitor_ctor garbage path w) = Some (m', w') \<and>
     (m', w') = ticks oss interval_seconds (int n) n (SystemMonitor_ctor garbage path w) \<and>
     length (cout w') = length (cout w) + n \<and>
     (path \<noteq> [] \<and> openable w path \<longrightarrow>
        (\<exists>rows. files w' path = Some (csv_header # rows) \<and>
                length rows = n \<and> list_all is_csv_row rows)) \<and>
     (path = [] \<or> openable w path = False \<longrightarrow> files w' = files w)"
proof -
  obtain m0 w0 where s0: "SystemMonitor_ctor garbage path w = (m0, w0)"
    by (cases "SystemMonitor_ctor garbage path w")
  obtain m' w' where t: "ticks oss interval_seconds (int n) n (m0, w0) = (m', w')"
    by (cases "ticks oss interval_seconds (int n) n (m0, w0)")
  have run: "monitor oss interval_seconds (int n) (SystemMonitor_ctor garbage path w) = Some (m', w')"
    using monitor_count [of oss interval_seconds n "(m0, w0)"] by (simp add: s0 t)
  have c0: "cout w0 = cout w"
    using ctor_cout [of garbage path w] by (simp add: s0)
  have len: "length (cout w') = length (cout w) + n"
    using ticks_cout [of oss interval_seconds "int n" n m0 w0] by (simp add: t c0)
  have logging: "\<exists>rows. files w' path = Some (csv_header # rows) \<and>
                length rows = n \<and> list_all is_csv_row rows"
    if ne: "path \<noteq> []" and op: "openable w path"
  proof -
    have m0: "log_to_file m0" "log_file m0 = path" "openable w0 path"
        "files w0 path = Some [csv_header]"
      using ctor_logging [OF ne, of garbage w] op by (simp_all add: s0)
    show ?thesis
      using ticks_files_logging [of m0 w0 "[csv_header]" oss interval_seconds "int n" n] m0
      by (simp add: t)
  qed
  have untouched: "files w' = files w" if no: "path = [] \<or> openable w path = False"
  proof (cases "path = []")
    case True
    then have m0: "log_to_file m0 = False" and w0: "files w0 = files w"
      using ctor_no_logging [of garbage w] s0 by simp_all
    have "files (snd (ticks oss interval_seconds (int n) n (m0, w0))) = files w0"
      using m0 by (simp add: ticks_files_other)
    then show ?thesis by (simp add: t w0)
  next
    case False
    with no have op: "openable w path = False" by simp
    have m0: "log_file m0 = path" "openable w0 = openable w" "files w0 = files w"
      using ctor_logging [OF False, of garbage w] op by (simp_all add: s0)
    have "files (snd (ticks oss interval_seconds (int n) n (m0, w0))) = files w0"
      using op m0 by (simp add: ticks_files_other)
    then show ?thesis by (simp add: t m0)
  qed
  from run len logging untouched show ?thesis by (simp add: s0 t)
qed

theorem session_ticks_witness:
  "''log.csv'' \<noteq> [] \<and> openable world_empty ''log.csv'' \<and>
   (\<exists>m' w'.
      monitor oss_two 0 3
        (SystemMonitor_ctor cpu_zero ''log.csv'' world_empty) = Some (m', w') \<and>
      length (cout w') = 3 \<and>
      (\<exists>rows. files w' ''log.csv'' = Some (csv_header # rows) \<and>
              length rows = 3 \<and> list_all is_csv_row rows)) \<and>
   openable world_readonly ''log.csv'' = False \<and>
   (\<exists>m' w'.
      monitor oss_steady 0 3
        (SystemMonitor_ctor cpu_zero ''log.csv'' world_readonly) = Some (m', w') \<and>
      length (cout w') = 3 \<and> files w' = files world_readonly)"
proof -
  have op: "openable world_empty ''log.csv''" "cout world_empty = []"
    by (simp_all add: world_empty_def)
  have ro: "openable world_readonly ''log.csv'' = False" "cout world_readonly = []"
    by (simp_all add: world_readonly_def world_empty_def)
  have a: "\<exists>m' w'.
      monitor oss_two 0 3
        (SystemMonitor_ctor cpu_zero ''log.csv'' world_empty) = Some (m', w') \<and>
      length (cout w') = 3 \<and>
      (\<exists>rows. files w' ''log.csv'' = Some (csv_header # rows) \<and>
              length rows = 3 \<and> list_all is_csv_row rows)"
    using session_ticks [where oss = oss_two
        and interval_seconds = 0 and n = 3 and garbage = cpu_zero
        and path = "''log.csv''" and w = world_empty]
    by (simp add: op) blast
  have b: "\<exists>m' w'.
      monitor oss_steady 0 3
        (SystemMonitor_ctor cpu_zero ''log.csv'' world_readonly) = Some (m', w') \<and>
      length (cout w') = 3 \<and> files w' = files world_readonly"
    using session_ticks [where oss = oss_steady
        and interval_seconds = 0 and n = 3 and garbage = cpu_zero
        and path = "''log.csv''" and w = world_readonly]
    by (simp add: ro) blast
  from op(1) ro(1) a b show ?thesis by simp
qed

text \<open>
  Claim C9. With a count below \<open>-1\<close> the loop makes no pass and returns: the monitor and
  the world are as they were, so no console line and no data row is produced. The loop
  fails to return exactly when the count is the sentinel \<open>-1\<close>.
\<close>

theorem count_below_sentinel:
  "(count < - 1 \<longrightarrow> monitor oss interval_seconds count s = Some s) \<and>
   ((monitor oss interval_seconds count s = None) = (count = - 1))"
proof -
  have below: "monitor oss interval_seconds count s = Some s" if "count < - 1"
    using that by (simp add: monitor_def monitor_loop_stop)
  have returns: "monitor oss interval_seconds count s \<noteq> None" if ne: "count \<noteq> - 1"
  proof (cases "count < - 1")
    case True
    then show ?thesis by (simp add: below)
  next
    case False
    with ne have "count = int (nat count)" by simp
    then have "monitor oss interval_seconds count s =
        Some (ticks oss interval_seconds count (nat count) s)"
      using monitor_count [of oss interval_seconds "nat count" s] by simp
    then show ?thesis by simp
  qed
  have forever: "monitor oss interval_seconds count s = None" if "count = - 1"
    using that by (simp add: monitor_forever)
  show ?thesis
  proof (cases "count = - 1")
    case True
    then show ?thesis using forever by simp
  next
    case False
    then show ?thesis using below returns by simp
  qed
qed

theorem count_below_sentinel_witness:
  "(- 2 :: int) < - 1 \<and>
   monitor oss_steady 1 (- 2) (SystemMonitor_ctor cpu_zero ''log.csv'' world_empty) =
     Some (SystemMonitor_ctor cpu_zero ''log.csv'' world_empty) \<and>
   cout (snd (SystemMonitor_ctor cpu_zero ''log.csv'' world_empty)) = [] \<and>
   files (snd (SystemMonitor_ctor cpu_zero ''log.csv'' world_empty)) ''log.csv'' =
     Some [csv_header]"
  using count_below_sentinel [where count = "- 2" and oss = oss_steady
      and interval_seconds = 1
      and s = "SystemMonitor_ctor cpu_zero ''log.csv'' world_empty"]
  by (simp add: SystemMonitor_ctor_def ofstream_write_def world_empty_def)

subsection \<open>The exit code\<close>

text \<open>
  Claim C8 says that the process exits with 0 on normal completion or help and with 1
  on every unhandled error, errors in the values of command-line arguments included.
  The first half holds (\<open>main_help\<close>, \<open>main_bounded_run\<close>). The two calls of \<^verbatim>\<open>std::stoi\<close>
  stand before the \<^verbatim>\<open>try\<close> block: on \<^verbatim>\<open>-c abc\<close> and on \<^verbatim>\<open>-i 99999999999\<close> the exception
  leaves \<^verbatim>\<open>main\<close> uncaught and the process is aborted, with no exit code 1.
\<close>

theorem main_invalid_argument_terminates:
  "main [''system_monitor'', ''-c'', ''abc''] garbage oss w =
     Some (Terminate (Invalid_argument ''stoi''), w) \<and>
   main [''system_monitor'', ''-i'', ''99999999999''] garbage oss w =
     Some (Terminate (Out_of_range ''stoi''), w)"
proof -
  have a: "main_loop (drop 1 [''system_monitor'', ''-c'', ''abc'']) 1 (- 1) [] =
      Inl (Invalid_argument ''stoi'')"
    by code_simp
  have b: "main_loop (drop 1 [''system_monitor'', ''-i'', ''99999999999'']) 1 (- 1) [] =
      Inl (Out_of_range ''stoi'')"
    by code_simp
  show ?thesis
    unfolding main_def a b by simp
qed

end
